theory Spec2Isabelle
  imports Main "HOL-Library.Word"
begin

unbundle bit_operations_syntax

section \<open>Extended Hamming SEC-DED codes: the three packages\<close>

text \<open>
  The repository holds three copies of one codec: package \<open>hamming4secded\<close> (8-bit
  codewords), \<open>hamming11secded\<close> (16-bit) and \<open>hamming57secded\<close> (64-bit). Every
  copy works on Go's \<open>int64\<close>, whatever the codeword width. Go's \<open>int64\<close> and
  \<open>uint64\<close> are \<open>64 word\<close> here (the code only shifts left, masks and xors them, so the
  sign never matters and the conversion between the two is the identity), \<open>uint8\<close> is
  \<open>8 word\<close>. Go's \<open>int\<close> holds only bit counts, parities and small shifts of them in
  this code (all within 0..255), so it is \<open>int\<close> and no wrap-around can occur.
  A function that has the same name in the three packages carries the suffix 4, 11 or
  57 of its package; \<open>onesCount64\<close>, \<open>computeParity\<close> and \<open>computeParityInt64\<close> are
  textually identical in the three packages and are embedded once.
\<close>

subsection \<open>Bit positions\<close>

text \<open>The constants of the three packages agree wherever they are declared.\<close>

definition globalParityBitp :: nat where "globalParityBitp = 1"
definition checkBitp0 :: nat where "checkBitp0 = 2"
definition checkBitp1 :: nat where "checkBitp1 = 3"
definition checkBitp2 :: nat where "checkBitp2 = 4"
definition checkBitp3 :: nat where "checkBitp3 = 5"
definition checkBitp4 :: nat where "checkBitp4 = 6"
definition checkBitp5 :: nat where "checkBitp5 = 7"

subsection \<open>Population count and parity\<close>

text \<open>
  \<open>onesCount64\<close>: the loop \<open>for x != 0 { n++; x &= x - 1 }\<close> with its counter \<open>n\<close> as
  an accumulator.
\<close>

function onesCount64_loop :: "int \<Rightarrow> 64 word \<Rightarrow> int" where
  "onesCount64_loop n x =
     (if x \<noteq> 0 then onesCount64_loop (n + 1) (x AND (x - 1)) else n)"
  by pat_completeness auto

termination
proof (relation "measure (\<lambda>(n, x). unat x)")
  show "wf (measure (\<lambda>(n, x). unat x))"
    by simp
next
  fix n :: int and x :: "64 word"
  assume nz: "x \<noteq> 0"
  have "x AND (x - 1) \<le> x - 1"
    by (rule word_and_le1)
  moreover have "x - 1 < x"
    using nz by (simp add: word_less_nat_alt unat_minus_one unat_gt_0)
  ultimately have "x AND (x - 1) < x"
    by simp
  then show "((n + 1, x AND (x - 1)), (n, x)) \<in> measure (\<lambda>(n, x). unat x)"
    by (simp add: word_less_nat_alt)
qed

declare onesCount64_loop.simps [simp del]

definition onesCount64 :: "64 word \<Rightarrow> int" where
  "onesCount64 x = onesCount64_loop 0 x"

definition computeParityInt64 :: "64 word \<Rightarrow> int" where
  "computeParityInt64 val = onesCount64 val AND 1"

definition computeParity :: "64 word \<Rightarrow> int" where
  "computeParity val = onesCount64 val AND 1"

subsection \<open>Failures\<close>

text \<open>The two \<open>panic\<close> calls of \<open>mapSyndromeToBitPos\<close>, with the syndrome they print.\<close>

datatype panic = SyndromeTooBig "8 word" | SyndromeNotMapped "8 word"

subsection \<open>Package hamming4secded: extended Hamming (8, 4, 4)\<close>

definition getHammingCheckBits4 :: "64 word \<Rightarrow> 8 word" where
  "getHammingCheckBits4 packedCheckable = ucast (packedCheckable AND 0x1c)"

definition computeHammingCheckBits4 :: "64 word \<Rightarrow> 8 word" where
  "computeHammingCheckBits4 packedVal =
     (let u = packedVal;
          p2 = computeParity (u AND 0xe0);
          p1 = computeParity (u AND 0xc1);
          p0 = computeParity (u AND 0xa1);
          cbs = push_bit checkBitp2 p2 OR push_bit checkBitp1 p1 OR push_bit checkBitp0 p0
      in word_of_int cbs)"

definition PackWithCheckBits4 :: "64 word \<Rightarrow> int \<Rightarrow> 64 word" where
  "PackWithCheckBits4 inputVal tagBit =
     (let packed = push_bit 5 inputVal OR word_of_int (tagBit AND 1);
          checkbits = computeHammingCheckBits4 packed;
          v = packed OR ucast checkbits;
          parity = computeParityInt64 v
      in v OR word_of_int (push_bit globalParityBitp (parity AND 1)))"

definition mapSyndromeToBitPos4 :: "8 word \<Rightarrow> panic + (8 word \<times> bool)" where
  "mapSyndromeToBitPos4 syndrome =
     (if syndrome > 7 then Inl (SyndromeTooBig syndrome)
      else if syndrome > 4 then Inr (syndrome, False)
      else if syndrome = 4 then Inr (of_nat checkBitp2, True)
      else if syndrome = 3 then Inr (0, False)
      else if syndrome = 2 then Inr (of_nat checkBitp1, True)
      else if syndrome = 1 then Inr (of_nat checkBitp0, True)
      else Inl (SyndromeNotMapped syndrome))"

definition Correct4 :: "64 word \<Rightarrow> panic + (int \<times> 64 word)" where
  "Correct4 packedCheckable =
     (let parity = computeParityInt64 packedCheckable;
          oldCheckbits = getHammingCheckBits4 packedCheckable;
          checkbits = computeHammingCheckBits4 packedCheckable;
          syndrome = drop_bit 2 (checkbits XOR oldCheckbits)
      in if parity = 0 then
           (if syndrome = 0 then Inr (0, packedCheckable) else Inr (2, 0))
         else if syndrome = 0 then
           Inr (1, packedCheckable XOR push_bit globalParityBitp 1)
         else
           (case mapSyndromeToBitPos4 syndrome of
              Inl p \<Rightarrow> Inl p
            | Inr (errBitPos, isCheckBit) \<Rightarrow>
                Inr (1, packedCheckable XOR push_bit (unat errBitPos) 1)))"

subsection \<open>Package hamming11secded: extended Hamming (16, 11, 4)\<close>

definition getHammingCheckBits11 :: "64 word \<Rightarrow> 8 word" where
  "getHammingCheckBits11 packedCheckable = ucast (packedCheckable AND 0x3c)"

definition computeHammingCheckBits11 :: "64 word \<Rightarrow> 8 word" where
  "computeHammingCheckBits11 packedVal =
     (let u = packedVal;
          p3 = computeParity (u AND 0xfe00);
          p2 = computeParity (u AND 0xf1c0);
          p1 = computeParity (u AND 0xcd81);
          p0 = computeParity (u AND 0xab41);
          cbs = push_bit checkBitp3 p3 OR push_bit checkBitp2 p2 OR push_bit checkBitp1 p1
                OR push_bit checkBitp0 p0
      in word_of_int cbs)"

definition PackWithCheckBits11 :: "64 word \<Rightarrow> int \<Rightarrow> 64 word" where
  "PackWithCheckBits11 inputVal tagBit =
     (let packed = push_bit 6 inputVal OR word_of_int (tagBit AND 1);
          checkbits = computeHammingCheckBits11 packed;
          v = packed OR ucast checkbits;
          parity = computeParityInt64 v
      in v OR word_of_int (push_bit globalParityBitp (parity AND 1)))"

definition mapSyndromeToBitPos11 :: "8 word \<Rightarrow> panic + (8 word \<times> bool)" where
  "mapSyndromeToBitPos11 syndrome =
     (if syndrome > 15 then Inl (SyndromeTooBig syndrome)
      else if syndrome > 8 then Inr (syndrome, False)
      else if syndrome = 8 then Inr (of_nat checkBitp3, True)
      else if syndrome > 4 then Inr (syndrome + 1, False)
      else if syndrome = 4 then Inr (of_nat checkBitp2, True)
      else if syndrome = 3 then Inr (0, False)
      else if syndrome = 2 then Inr (of_nat checkBitp1, True)
      else if syndrome = 1 then Inr (of_nat checkBitp0, True)
      else Inl (SyndromeNotMapped syndrome))"

definition Correct11 :: "64 word \<Rightarrow> panic + (int \<times> 64 word)" where
  "Correct11 packedCheckable =
     (let parity = computeParityInt64 packedCheckable;
          oldCheckbits = getHammingCheckBits11 packedCheckable;
          checkbits = computeHammingCheckBits11 packedCheckable;
          syndrome = drop_bit 2 (checkbits XOR oldCheckbits)
      in if parity = 0 then
           (if syndrome = 0 then Inr (0, packedCheckable) else Inr (2, 0))
         else if syndrome = 0 then
           Inr (1, packedCheckable XOR push_bit globalParityBitp 1)
         else
           (case mapSyndromeToBitPos11 syndrome of
              Inl p \<Rightarrow> Inl p
            | Inr (errBitPos, isCheckBit) \<Rightarrow>
                Inr (1, packedCheckable XOR push_bit (unat errBitPos) 1)))"

subsection \<open>Package hamming57secded: extended Hamming (64, 57, 4)\<close>

definition getHammingCheckBits57 :: "64 word \<Rightarrow> 8 word" where
  "getHammingCheckBits57 packedCheckable = ucast (packedCheckable AND 0xfc)"

definition computeHammingCheckBits57 :: "64 word \<Rightarrow> 8 word" where
  "computeHammingCheckBits57 packedVal =
     (let u = packedVal;
          p5 = computeParity (u AND 0xfffffffe00000000);
          p4 = computeParity (u AND 0xffff0001fffc0000);
          p3 = computeParity (u AND 0xff00ff01fe03f800);
          p2 = computeParity (u AND 0xf0f0f0f1e1e3c700);
          p1 = computeParity (u AND 0xcccccccd999b3601);
          p0 = computeParity (u AND 0xaaaaaaab5556ad01);
          cbs = push_bit checkBitp5 p5 OR push_bit checkBitp4 p4 OR push_bit checkBitp3 p3
                OR push_bit checkBitp2 p2 OR push_bit checkBitp1 p1 OR push_bit checkBitp0 p0
      in word_of_int cbs)"

definition PackWithCheckBits57 :: "64 word \<Rightarrow> int \<Rightarrow> 64 word" where
  "PackWithCheckBits57 inputVal tagBit =
     (let packed = push_bit 8 inputVal OR word_of_int (tagBit AND 1);
          checkbits = computeHammingCheckBits57 packed;
          v = packed OR ucast checkbits;
          parity = computeParityInt64 v
      in v OR word_of_int (push_bit globalParityBitp (parity AND 1)))"

definition mapSyndromeToBitPos57 :: "8 word \<Rightarrow> panic + (8 word \<times> bool)" where
  "mapSyndromeToBitPos57 syndrome =
     (if syndrome > 63 then Inl (SyndromeTooBig syndrome)
      else if syndrome > 32 then Inr (syndrome, False)
      else if syndrome = 32 then Inr (of_nat checkBitp5, True)
      else if syndrome > 16 then Inr (syndrome + 1, False)
      else if syndrome = 16 then Inr (of_nat checkBitp4, True)
      else if syndrome > 8 then Inr (syndrome + 2, False)
      else if syndrome = 8 then Inr (of_nat checkBitp3, True)
      else if syndrome > 4 then Inr (syndrome + 3, False)
      else if syndrome = 4 then Inr (of_nat checkBitp2, True)
      else if syndrome = 3 then Inr (0, False)
      else if syndrome = 2 then Inr (of_nat checkBitp1, True)
      else if syndrome = 1 then Inr (of_nat checkBitp0, True)
      else Inl (SyndromeNotMapped syndrome))"

definition Correct57 :: "64 word \<Rightarrow> panic + (int \<times> 64 word)" where
  "Correct57 packedCheckable =
     (let parity = computeParityInt64 packedCheckable;
          oldCheckbits = getHammingCheckBits57 packedCheckable;
          checkbits = computeHammingCheckBits57 packedCheckable;
          syndrome = drop_bit 2 (checkbits XOR oldCheckbits)
      in if parity = 0 then
           (if syndrome = 0 then Inr (0, packedCheckable) else Inr (2, 0))
         else if syndrome = 0 then
           Inr (1, packedCheckable XOR push_bit globalParityBitp 1)
         else
           (case mapSyndromeToBitPos57 syndrome of
              Inl p \<Rightarrow> Inl p
            | Inr (errBitPos, isCheckBit) \<Rightarrow>
                Inr (1, packedCheckable XOR push_bit (unat errBitPos) 1)))"

section \<open>Notions used to state and prove the properties\<close>

text \<open>
  The population count of a natural number, by its binary digits. It is the count that
  \<open>onesCount64\<close> is shown to compute (lemma \<open>onesCount64_popc\<close>).
\<close>

fun popc :: "nat \<Rightarrow> nat" where
  "popc n = (if n = 0 then 0 else n mod 2 + popc (n div 2))"

declare popc.simps [simp del]

text \<open>The parity of a 64-bit word: whether its population count is odd.\<close>

definition par :: "64 word \<Rightarrow> bool" where
  "par x = odd (popc (unat x))"

text \<open>
  The syndrome as the \<open>Correct\<close> function of each package computes it from its
  argument (the local variable \<open>syndrome\<close>).
\<close>

definition syndrome4 :: "64 word \<Rightarrow> 8 word" where
  "syndrome4 w = drop_bit 2 (computeHammingCheckBits4 w XOR getHammingCheckBits4 w)"

definition syndrome11 :: "64 word \<Rightarrow> 8 word" where
  "syndrome11 w = drop_bit 2 (computeHammingCheckBits11 w XOR getHammingCheckBits11 w)"

definition syndrome57 :: "64 word \<Rightarrow> 8 word" where
  "syndrome57 w = drop_bit 2 (computeHammingCheckBits57 w XOR getHammingCheckBits57 w)"

text \<open>
  The rule that the specification gives for the syndrome \<open>s\<close> of a Value bit: the
  position is \<open>s\<close>, plus 1 for each power-of-two threshold at or below \<open>s\<close>. A syndrome
  is a \<open>uint8\<close>, so the thresholds are \<open>2 ^ 0\<close> to \<open>2 ^ 7\<close>.
\<close>

definition thresholds_at_or_below :: "nat \<Rightarrow> nat" where
  "thresholds_at_or_below s = length (filter (\<lambda>i. 2 ^ i \<le> s) [0..<8])"

definition spec_valueBitPos :: "nat \<Rightarrow> nat" where
  "spec_valueBitPos s = s + thresholds_at_or_below s"

text \<open>
  The number of check-bit thresholds \<open>2 ^ i\<close>, \<open>i < r\<close>, that lie above the syndrome
  \<open>s\<close>, for a code with \<open>r\<close> check bits.
\<close>

definition thresholds_above :: "nat \<Rightarrow> nat \<Rightarrow> nat" where
  "thresholds_above r s = length (filter (\<lambda>i. s < 2 ^ i) [0..<r])"

section \<open>The population count loop\<close>

lemmas bitp_defs = globalParityBitp_def checkBitp0_def checkBitp1_def checkBitp2_def
  checkBitp3_def checkBitp4_def checkBitp5_def

lemma popc_0 [simp]: "popc 0 = 0"
  by (simp add: popc.simps)

lemma popc_rec: "popc n = n mod 2 + popc (n div 2)"
  by (subst popc.simps) simp

lemma popc_double [simp]: "popc (2 * n) = popc n"
  by (subst popc_rec) simp

lemma popc_double_plus [simp]: "popc (Suc (2 * n)) = Suc (popc n)"
  by (subst popc_rec) simp

lemma clear_lowest_odd: "Suc (2 * m) AND (2 * m) = 2 * m"
  by (simp add: and_nat_rec [of "Suc (2 * m)" "2 * m"])

lemma clear_lowest_even: "(2 * m) AND Suc (2 * k) = 2 * (m AND k)"
  by (simp add: and_nat_rec [of "2 * m" "Suc (2 * k)"])

text \<open>One round of the loop, \<open>x &= x - 1\<close>, removes exactly one set bit.\<close>

lemma popc_clear_lowest: "0 < n \<Longrightarrow> Suc (popc (n AND (n - 1))) = popc n"
proof (induction n rule: less_induct)
  case (less n)
  show ?case
  proof (cases "even n")
    case True
    then obtain m where m: "n = 2 * m" by (elim evenE)
    with less.prems have mpos: "0 < m" by simp
    then have pred: "n - 1 = Suc (2 * (m - 1))" using m by simp
    have "n AND (n - 1) = 2 * (m AND (m - 1))"
      unfolding pred unfolding m by (rule clear_lowest_even)
    moreover have "Suc (popc (m AND (m - 1))) = popc m"
      using less.IH [of m] mpos m by simp
    ultimately show ?thesis using m by simp
  next
    case False
    then obtain m where m: "n = Suc (2 * m)" by (elim oddE) simp
    then show ?thesis by (simp add: clear_lowest_odd)
  qed
qed

lemma onesCount64_loop_popc: "onesCount64_loop n x = n + int (popc (unat x))"
proof (induction n x rule: onesCount64_loop.induct)
  case (1 n x)
  show ?case
  proof (cases "x = 0")
    case True
    then show ?thesis by (simp add: onesCount64_loop.simps)
  next
    case False
    then have pos: "0 < unat x" by (simp add: unat_gt_0)
    have "unat (x AND (x - 1)) = unat x AND (unat x - 1)"
      using False by (simp add: unsigned_and_eq unat_minus_one)
    with popc_clear_lowest [OF pos] 1 [OF False] False show ?thesis
      by (subst onesCount64_loop.simps) simp
  qed
qed

lemma onesCount64_popc: "onesCount64 x = int (popc (unat x))"
  by (simp add: onesCount64_def onesCount64_loop_popc)

section \<open>Parity is linear over exclusive or\<close>

lemma popc_xor_even: "even (popc (a XOR b)) = (even (popc a) = even (popc b))"
proof (induction a arbitrary: b rule: popc.induct)
  case (1 a)
  show ?case
  proof (cases "a = 0")
    case True
    then show ?thesis by simp
  next
    case False
    have half: "(a XOR b) div 2 = (a div 2) XOR (b div 2)"
      by (simp add: xor_nat_rec [of a b])
    have "even (popc (a XOR b)) = (even (a XOR b) = even (popc ((a div 2) XOR (b div 2))))"
      by (subst popc_rec) (simp add: half even_xor_iff)
    also have "\<dots> = ((even a = even b) = (even (popc (a div 2)) = even (popc (b div 2))))"
      by (simp add: 1 [OF False] even_xor_iff)
    also have "\<dots> = (even (popc a) = even (popc b))"
      by (subst popc_rec [of a], subst popc_rec [of b]) auto
    finally show ?thesis .
  qed
qed

lemma computeParity_par: "computeParity x = of_bool (par x)"
  by (simp add: computeParity_def onesCount64_popc par_def and_one_eq mod_2_eq_odd)

lemma computeParityInt64_par: "computeParityInt64 x = of_bool (par x)"
  by (simp add: computeParityInt64_def onesCount64_popc par_def and_one_eq mod_2_eq_odd)

lemma par_xor: "par (x XOR y) = (par x \<noteq> par y)"
  by (auto simp add: par_def unsigned_xor_eq popc_xor_even)

lemma par_0 [simp]: "\<not> par 0"
  by (simp add: par_def)

lemma popc_pow2: "popc (2 ^ p) = 1"
  by (induction p) (simp_all add: popc_rec [of "Suc 0"])

lemma par_bit: "p < 64 \<Longrightarrow> par (push_bit p 1)"
proof -
  assume "p < 64"
  then have "(2::nat) ^ p < 2 ^ 64"
    by (rule power_strict_increasing) simp
  then have "take_bit 64 ((2::nat) ^ p) = 2 ^ p"
    by (rule take_bit_nat_eq_self)
  then have "unat (push_bit p (1 :: 64 word)) = 2 ^ p"
    by (simp add: unsigned_push_bit_eq del: push_bit_of_1)
  then show ?thesis
    by (simp only: par_def popc_pow2) simp
qed

lemma par_2: "par 2"
  using par_bit [of 1] by simp

lemma par_and_xor: "par ((x XOR y) AND m) = (par (x AND m) \<noteq> par (y AND m))"
  by (simp add: bit.conj_xor_distrib2 par_xor)

section \<open>Word facts\<close>

lemma or_eq_xor_disjoint: "x AND y = 0 \<Longrightarrow> x OR y = x XOR y" for x y :: "'a::len word"
proof (rule bit_word_eqI)
  fix n
  assume "x AND y = 0"
  then have "\<not> bit (x AND y) n" by simp
  then show "bit (x OR y) n = bit (x XOR y) n"
    by (auto simp add: bit_and_iff bit_or_iff bit_xor_iff)
qed

lemma and_zero_sub: "w AND a = 0 \<Longrightarrow> a AND b = b \<Longrightarrow> w AND b = 0"
  for w a b :: "'a::len word"
  by (metis and.assoc zero_and_eq)

lemma and_within_disjoint: "w AND a = w \<Longrightarrow> a AND m = 0 \<Longrightarrow> w AND m = 0"
  for w a m :: "'a::len word"
  by (metis and.assoc and_zero_eq)

lemma xor_eq_0_iff: "x XOR y = 0 \<longleftrightarrow> x = y" for x y :: "'a::len word"
  by (metis bit.xor_self xor.left_neutral xor.assoc)

lemma bit_two: "bit (2 :: 64 word) n \<longleftrightarrow> n = 1"
proof -
  have "bit (2 ^ 1 :: 64 word) n \<longleftrightarrow> n = 1"
    by (simp only: bit_exp_iff possible_bit_word) auto
  then show ?thesis
    by simp
qed

lemma tag_bit: "(word_of_int (t AND 1) :: 64 word) = of_bool (odd t)"
  by (simp add: and_one_eq mod_2_eq_odd)

lemma unat_of_nat8: "p < 64 \<Longrightarrow> unat (of_nat p :: 8 word) = p"
  by (simp add: unat_of_nat)

lemma of_nat8_inj: "p < 64 \<Longrightarrow> q < 64 \<Longrightarrow> (of_nat p :: 8 word) = of_nat q \<Longrightarrow> p = q"
  by (metis unat_of_nat8)

subsection \<open>Package hamming4secded: linearity, valid codewords, single-bit syndromes\<close>

lemma bit_chk4:
  "bit (computeHammingCheckBits4 w) n \<longleftrightarrow>
     n = 4 \<and> par (w AND 0xe0) \<or>
     n = 3 \<and> par (w AND 0xc1) \<or>
     n = 2 \<and> par (w AND 0xa1)"
  by (auto simp add: computeHammingCheckBits4_def Let_def computeParity_par bitp_defs bit_simps)

lemma chk4_xor:
  "computeHammingCheckBits4 (x XOR y) = computeHammingCheckBits4 x XOR computeHammingCheckBits4 y"
  by (rule bit_word_eqI) (auto simp add: bit_chk4 bit_xor_iff par_and_xor)

lemma bit_mask4:
  "bit (0x1c :: 'a::len word) n \<longleftrightarrow> 2 \<le> n \<and> n < 5 \<and> n < LENGTH('a)"
proof -
  have "bit (push_bit 2 (mask 3) :: 'a word) n \<longleftrightarrow> 2 \<le> n \<and> n < 5 \<and> n < LENGTH('a)"
    by (simp only: bit_push_bit_iff bit_mask_iff possible_bit_word) auto
  moreover have "push_bit 2 (mask 3) = (0x1c :: 'a word)"
    by (simp add: mask_numeral)
  ultimately show ?thesis
    by (simp only:)
qed

lemma bit_resv4:
  "bit (0x1e :: 'a::len word) n \<longleftrightarrow> 1 \<le> n \<and> n < 5 \<and> n < LENGTH('a)"
proof -
  have "bit (push_bit 1 (mask 4) :: 'a word) n \<longleftrightarrow> 1 \<le> n \<and> n < 5 \<and> n < LENGTH('a)"
    by (simp only: bit_push_bit_iff bit_mask_iff possible_bit_word) auto
  moreover have "push_bit 1 (mask 4) = (0x1e :: 'a word)"
    by (simp add: mask_numeral)
  ultimately show ?thesis
    by (simp only:)
qed

lemma bit_get4: "bit (getHammingCheckBits4 w) n \<longleftrightarrow> 2 \<le> n \<and> n < 5 \<and> bit w n"
  by (simp only: getHammingCheckBits4_def bit_ucast_iff bit_and_iff bit_mask4) auto

lemma get4_xor:
  "getHammingCheckBits4 (x XOR y) = getHammingCheckBits4 x XOR getHammingCheckBits4 y"
  by (rule bit_word_eqI) (auto simp add: bit_get4 bit_xor_iff)

lemma syndrome4_xor: "syndrome4 (x XOR y) = syndrome4 x XOR syndrome4 y"
  by (simp add: syndrome4_def chk4_xor get4_xor ac_simps)

lemma Correct4_alt:
  "Correct4 w =
     (if \<not> par w then (if syndrome4 w = 0 then Inr (0, w) else Inr (2, 0))
      else if syndrome4 w = 0 then Inr (1, w XOR 2)
      else (case mapSyndromeToBitPos4 (syndrome4 w) of
              Inl p \<Rightarrow> Inl p
            | Inr (errBitPos, isCheckBit) \<Rightarrow> Inr (1, w XOR push_bit (unat errBitPos) 1)))"
  by (simp add: Correct4_def Let_def syndrome4_def computeParityInt64_par globalParityBitp_def)

lemma syndrome4_bound: "unat (syndrome4 w) < 8"
proof -
  have "syndrome4 w = take_bit 3 (syndrome4 w)"
    by (rule bit_word_eqI) (auto simp add: syndrome4_def bit_simps bit_chk4 bit_get4)
  then have "unat (syndrome4 w) = take_bit 3 (unat (syndrome4 w))"
    by (metis unsigned_take_bit_eq)
  also have "\<dots> < 2 ^ 3"
    by (rule take_bit_nat_less_exp)
  finally show ?thesis
    by simp
qed

lemma chk4_low: "w AND 0x1e = w \<Longrightarrow> computeHammingCheckBits4 w = 0"
proof -
  assume low: "w AND 0x1e = w"
  have "w AND 0xe0 = 0" "w AND 0xc1 = 0" "w AND 0xa1 = 0"
    by (rule and_within_disjoint [OF low], simp)+
  then show ?thesis
    by (intro bit_word_eqI) (simp add: bit_chk4)
qed

lemma syndrome4_chk:
  "syndrome4 (ucast (computeHammingCheckBits4 x)) = drop_bit 2 (computeHammingCheckBits4 x)"
proof -
  let ?c = "computeHammingCheckBits4 x"
  have low: "(ucast ?c :: 64 word) AND 0x1e = ucast ?c"
    by (rule bit_word_eqI) (simp only: bit_and_iff bit_ucast_iff bit_chk4 bit_resv4, auto)
  have "getHammingCheckBits4 (ucast ?c) = ?c"
    by (rule bit_word_eqI) (auto simp add: bit_get4 bit_ucast_iff bit_chk4)
  with chk4_low [OF low] show ?thesis
    by (simp add: syndrome4_def)
qed

lemma syndrome4_0: "syndrome4 0 = 0"
  by (simp add: syndrome4_def chk4_low getHammingCheckBits4_def)

lemma syndrome4_2: "syndrome4 2 = 0"
  by (simp add: syndrome4_def chk4_low getHammingCheckBits4_def)

lemma pack4_valid:
  "\<not> par (PackWithCheckBits4 v t) \<and> syndrome4 (PackWithCheckBits4 v t) = 0"
proof -
  define packed :: "64 word" where "packed = push_bit 5 v OR word_of_int (t AND 1)"
  define c where "c = computeHammingCheckBits4 packed"
  define v' where "v' = packed OR ucast c"
  define g :: "64 word" where "g = (if par v' then 2 else 0)"
  have pack: "PackWithCheckBits4 v t = v' OR g"
    by (simp add: PackWithCheckBits4_def Let_def packed_def c_def v'_def g_def
        computeParityInt64_par globalParityBitp_def)
  have packed_resv: "packed AND 0x1e = 0"
    unfolding packed_def tag_bit
    by (rule bit_word_eqI)
      (simp only: bit_and_iff bit_or_iff bit_push_bit_iff bit_resv4 bit_of_bool_iff, auto)
  have c_resv: "(ucast c :: 64 word) AND 0x1e = ucast c"
    unfolding c_def
    by (rule bit_word_eqI) (simp only: bit_and_iff bit_ucast_iff bit_chk4 bit_resv4, auto)
  have "ucast c AND packed = 0"
    using c_resv by (rule and_within_disjoint) (simp add: packed_resv and.commute)
  then have "packed AND ucast c = 0"
    by (simp add: and.commute)
  then have v'_xor: "v' = packed XOR ucast c"
    unfolding v'_def by (rule or_eq_xor_disjoint)
  have "packed AND 0x1c = 0"
    by (rule and_zero_sub [OF packed_resv]) simp
  then have "getHammingCheckBits4 packed = 0"
    by (simp add: getHammingCheckBits4_def)
  then have "syndrome4 packed = drop_bit 2 c"
    by (simp add: syndrome4_def c_def)
  then have syn_v': "syndrome4 v' = 0"
    by (simp add: v'_xor syndrome4_xor syndrome4_chk c_def)
  have "v' AND 2 = 0"
    unfolding v'_def packed_def tag_bit c_def
    by (rule bit_word_eqI)
      (simp only: bit_and_iff bit_or_iff bit_push_bit_iff bit_of_bool_iff bit_ucast_iff
        bit_chk4 bit_two, auto)
  then have "v' AND g = 0"
    by (simp add: g_def)
  then have "v' OR g = v' XOR g"
    by (rule or_eq_xor_disjoint)
  with pack have "PackWithCheckBits4 v t = v' XOR g"
    by simp
  then show ?thesis
    by (simp add: par_xor syndrome4_xor syndrome4_0 syndrome4_2 syn_v' g_def par_2)
qed

lemma bit_flip_table4:
  "list_all (\<lambda>p. if p = 1 then syndrome4 (push_bit p 1) = 0
       else syndrome4 (push_bit p 1) \<noteq> 0 \<and>
            map_sum id fst (mapSyndromeToBitPos4 (syndrome4 (push_bit p 1))) = Inr (of_nat p))
     [0..<8]"
  by code_simp

lemma syndrome_table4:
  "list_all (\<lambda>s. case mapSyndromeToBitPos4 s of
        Inl e \<Rightarrow> False
      | Inr (errBitPos, isCheckBit) \<Rightarrow>
          unat errBitPos < 64 \<and> syndrome4 (push_bit (unat errBitPos) 1) = s)
     (map of_nat [1..<8])"
  by code_simp

lemma flip4_parity: "syndrome4 (push_bit 1 1) = 0"
  by (simp add: syndrome4_2)

lemma flip4_other:
  assumes "p < 8" "p \<noteq> 1"
  shows "syndrome4 (push_bit p 1) \<noteq> 0"
    and "\<exists>b. mapSyndromeToBitPos4 (syndrome4 (push_bit p 1)) = Inr (of_nat p, b)"
proof -
  from assms have "p \<in> set [0..<8]" by simp
  with bit_flip_table4 assms(2)
  have *: "syndrome4 (push_bit p 1) \<noteq> 0 \<and>
      map_sum id fst (mapSyndromeToBitPos4 (syndrome4 (push_bit p 1))) = Inr (of_nat p)"
    unfolding list_all_iff by (auto simp only: split: if_splits)
  then show "syndrome4 (push_bit p 1) \<noteq> 0" by simp
  from * show "\<exists>b. mapSyndromeToBitPos4 (syndrome4 (push_bit p 1)) = Inr (of_nat p, b)"
    by (cases "mapSyndromeToBitPos4 (syndrome4 (push_bit p 1))") auto
qed

lemma map4_total:
  assumes "s \<noteq> 0" "unat s < 8"
  shows "\<exists>e b. mapSyndromeToBitPos4 s = Inr (e, b) \<and> unat e < 64 \<and>
           syndrome4 (push_bit (unat e) 1) = s"
proof -
  from assms have "unat s \<in> set [1..<8]"
    by (simp add: unat_gt_0 Suc_le_eq)
  then have "(of_nat (unat s) :: 8 word) \<in> of_nat ` set [1..<8]"
    by (rule imageI)
  then have "s \<in> set (map of_nat [1..<8] :: 8 word list)"
    by (simp only: set_map of_nat_unat ucast_id)
  with syndrome_table4 show ?thesis
    unfolding list_all_iff by (fastforce split: sum.splits prod.splits)
qed

lemma correct4_pack: "Correct4 (PackWithCheckBits4 v t) = Inr (0, PackWithCheckBits4 v t)"
  by (simp add: Correct4_alt pack4_valid)

lemma correct4_flip1:
  assumes "p < 8"
  shows "Correct4 (PackWithCheckBits4 v t XOR push_bit p 1) = Inr (1, PackWithCheckBits4 v t)"
proof -
  let ?w = "PackWithCheckBits4 v t"
  let ?e = "push_bit p 1 :: 64 word"
  from assms have p64: "p < 64"
    by simp
  have par: "par (?w XOR ?e)"
    using par_bit [OF p64] by (simp only: par_xor pack4_valid) simp
  have syn: "syndrome4 (?w XOR ?e) = syndrome4 ?e"
    by (simp only: syndrome4_xor pack4_valid xor.left_neutral)
  show ?thesis
  proof (cases "p = 1")
    case True
    with par syn flip4_parity show ?thesis
      by (simp add: Correct4_alt xor.assoc)
  next
    case False
    with assms flip4_other [of p] obtain b
      where nz: "syndrome4 ?e \<noteq> 0"
        and m: "mapSyndromeToBitPos4 (syndrome4 ?e) = Inr (of_nat p, b)"
      by blast
    have "unat (of_nat p :: 8 word) = p"
      using p64 by (simp add: unat_of_nat8)
    then show ?thesis
      using par syn nz m by (simp only: Correct4_alt) (simp add: xor.assoc)
  qed
qed

lemma flip4_inj:
  assumes "p < 8" "q < 8" "p \<noteq> q"
  shows "syndrome4 (push_bit p 1) \<noteq> syndrome4 (push_bit q 1)"
proof
  assume eq: "syndrome4 (push_bit p 1) = syndrome4 (push_bit q 1)"
  show False
  proof (cases "p = 1 \<or> q = 1")
    case True
    with assms eq flip4_parity flip4_other(1) [of p] flip4_other(1) [of q] show False
      by metis
  next
    case False
    with assms flip4_other(2) [of p] flip4_other(2) [of q] eq
    have "(of_nat p :: 8 word) = of_nat q"
      by auto
    with assms show False
      using of_nat8_inj [of p q] by simp
  qed
qed

lemma correct4_flip2:
  assumes "p < 8" "q < 8" "p \<noteq> q"
  shows "Correct4 (PackWithCheckBits4 v t XOR push_bit p 1 XOR push_bit q 1) = Inr (2, 0)"
proof -
  let ?w = "PackWithCheckBits4 v t"
  from assms have "p < 64" "q < 64"
    by simp_all
  then have par: "\<not> par (?w XOR push_bit p 1 XOR push_bit q 1)"
    using par_bit [of p] par_bit [of q] by (simp only: par_xor pack4_valid) simp
  have "syndrome4 (?w XOR push_bit p 1 XOR push_bit q 1) =
      syndrome4 (push_bit p 1) XOR syndrome4 (push_bit q 1)"
    by (simp only: syndrome4_xor pack4_valid xor.left_neutral)
  with flip4_inj [OF assms] have "syndrome4 (?w XOR push_bit p 1 XOR push_bit q 1) \<noteq> 0"
    by (simp only: xor_eq_0_iff) simp
  with par show ?thesis
    by (simp only: Correct4_alt) simp
qed

lemma correct4_total: "\<exists>n x. Correct4 w = Inr (n, x)"
proof (cases "syndrome4 w = 0")
  case True
  then show ?thesis
    by (simp add: Correct4_alt)
next
  case False
  with map4_total [OF _ syndrome4_bound, of w] show ?thesis
    by (auto simp add: Correct4_alt)
qed

lemma correct4_idem:
  assumes "Correct4 w = Inr (1, x)"
  shows "Correct4 x = Inr (0, x)"
proof -
  from assms have pw: "par w"
    by (simp add: Correct4_alt split: if_splits)
  show ?thesis
  proof (cases "syndrome4 w = 0")
    case True
    with assms pw have "x = w XOR 2"
      by (simp add: Correct4_alt)
    with pw True show ?thesis
      by (simp add: Correct4_alt par_xor par_2 syndrome4_xor syndrome4_2)
  next
    case False
    with map4_total [OF _ syndrome4_bound, of w] obtain e b
      where m: "mapSyndromeToBitPos4 (syndrome4 w) = Inr (e, b)"
        and e: "unat e < 64" and s: "syndrome4 (push_bit (unat e) 1) = syndrome4 w"
      by blast
    from assms pw False m have "x = w XOR push_bit (unat e) 1"
      by (simp add: Correct4_alt)
    with pw par_bit [OF e] s show ?thesis
      by (simp only: Correct4_alt par_xor syndrome4_xor) simp
  qed
qed

subsection \<open>Package hamming11secded: linearity, valid codewords, single-bit syndromes\<close>

lemma bit_chk11:
  "bit (computeHammingCheckBits11 w) n \<longleftrightarrow>
     n = 5 \<and> par (w AND 0xfe00) \<or>
     n = 4 \<and> par (w AND 0xf1c0) \<or>
     n = 3 \<and> par (w AND 0xcd81) \<or>
     n = 2 \<and> par (w AND 0xab41)"
  by (auto simp add: computeHammingCheckBits11_def Let_def computeParity_par bitp_defs bit_simps)

lemma chk11_xor:
  "computeHammingCheckBits11 (x XOR y) = computeHammingCheckBits11 x XOR computeHammingCheckBits11 y"
  by (rule bit_word_eqI) (auto simp add: bit_chk11 bit_xor_iff par_and_xor)

lemma bit_mask11:
  "bit (0x3c :: 'a::len word) n \<longleftrightarrow> 2 \<le> n \<and> n < 6 \<and> n < LENGTH('a)"
proof -
  have "bit (push_bit 2 (mask 4) :: 'a word) n \<longleftrightarrow> 2 \<le> n \<and> n < 6 \<and> n < LENGTH('a)"
    by (simp only: bit_push_bit_iff bit_mask_iff possible_bit_word) auto
  moreover have "push_bit 2 (mask 4) = (0x3c :: 'a word)"
    by (simp add: mask_numeral)
  ultimately show ?thesis
    by (simp only:)
qed

lemma bit_resv11:
  "bit (0x3e :: 'a::len word) n \<longleftrightarrow> 1 \<le> n \<and> n < 6 \<and> n < LENGTH('a)"
proof -
  have "bit (push_bit 1 (mask 5) :: 'a word) n \<longleftrightarrow> 1 \<le> n \<and> n < 6 \<and> n < LENGTH('a)"
    by (simp only: bit_push_bit_iff bit_mask_iff possible_bit_word) auto
  moreover have "push_bit 1 (mask 5) = (0x3e :: 'a word)"
    by (simp add: mask_numeral)
  ultimately show ?thesis
    by (simp only:)
qed

lemma bit_get11: "bit (getHammingCheckBits11 w) n \<longleftrightarrow> 2 \<le> n \<and> n < 6 \<and> bit w n"
  by (simp only: getHammingCheckBits11_def bit_ucast_iff bit_and_iff bit_mask11) auto

lemma get11_xor:
  "getHammingCheckBits11 (x XOR y) = getHammingCheckBits11 x XOR getHammingCheckBits11 y"
  by (rule bit_word_eqI) (auto simp add: bit_get11 bit_xor_iff)

lemma syndrome11_xor: "syndrome11 (x XOR y) = syndrome11 x XOR syndrome11 y"
  by (simp add: syndrome11_def chk11_xor get11_xor ac_simps)

lemma Correct11_alt:
  "Correct11 w =
     (if \<not> par w then (if syndrome11 w = 0 then Inr (0, w) else Inr (2, 0))
      else if syndrome11 w = 0 then Inr (1, w XOR 2)
      else (case mapSyndromeToBitPos11 (syndrome11 w) of
              Inl p \<Rightarrow> Inl p
            | Inr (errBitPos, isCheckBit) \<Rightarrow> Inr (1, w XOR push_bit (unat errBitPos) 1)))"
  by (simp add: Correct11_def Let_def syndrome11_def computeParityInt64_par globalParityBitp_def)

lemma syndrome11_bound: "unat (syndrome11 w) < 16"
proof -
  have "syndrome11 w = take_bit 4 (syndrome11 w)"
    by (rule bit_word_eqI) (auto simp add: syndrome11_def bit_simps bit_chk11 bit_get11)
  then have "unat (syndrome11 w) = take_bit 4 (unat (syndrome11 w))"
    by (metis unsigned_take_bit_eq)
  also have "\<dots> < 2 ^ 4"
    by (rule take_bit_nat_less_exp)
  finally show ?thesis
    by simp
qed

lemma chk11_low: "w AND 0x3e = w \<Longrightarrow> computeHammingCheckBits11 w = 0"
proof -
  assume low: "w AND 0x3e = w"
  have "w AND 0xfe00 = 0" "w AND 0xf1c0 = 0" "w AND 0xcd81 = 0" "w AND 0xab41 = 0"
    by (rule and_within_disjoint [OF low], simp)+
  then show ?thesis
    by (intro bit_word_eqI) (simp add: bit_chk11)
qed

lemma syndrome11_chk:
  "syndrome11 (ucast (computeHammingCheckBits11 x)) = drop_bit 2 (computeHammingCheckBits11 x)"
proof -
  let ?c = "computeHammingCheckBits11 x"
  have low: "(ucast ?c :: 64 word) AND 0x3e = ucast ?c"
    by (rule bit_word_eqI) (simp only: bit_and_iff bit_ucast_iff bit_chk11 bit_resv11, auto)
  have "getHammingCheckBits11 (ucast ?c) = ?c"
    by (rule bit_word_eqI) (auto simp add: bit_get11 bit_ucast_iff bit_chk11)
  with chk11_low [OF low] show ?thesis
    by (simp add: syndrome11_def)
qed

lemma syndrome11_0: "syndrome11 0 = 0"
  by (simp add: syndrome11_def chk11_low getHammingCheckBits11_def)

lemma syndrome11_2: "syndrome11 2 = 0"
  by (simp add: syndrome11_def chk11_low getHammingCheckBits11_def)

lemma pack11_valid:
  "\<not> par (PackWithCheckBits11 v t) \<and> syndrome11 (PackWithCheckBits11 v t) = 0"
proof -
  define packed :: "64 word" where "packed = push_bit 6 v OR word_of_int (t AND 1)"
  define c where "c = computeHammingCheckBits11 packed"
  define v' where "v' = packed OR ucast c"
  define g :: "64 word" where "g = (if par v' then 2 else 0)"
  have pack: "PackWithCheckBits11 v t = v' OR g"
    by (simp add: PackWithCheckBits11_def Let_def packed_def c_def v'_def g_def
        computeParityInt64_par globalParityBitp_def)
  have packed_resv: "packed AND 0x3e = 0"
    unfolding packed_def tag_bit
    by (rule bit_word_eqI)
      (simp only: bit_and_iff bit_or_iff bit_push_bit_iff bit_resv11 bit_of_bool_iff, auto)
  have c_resv: "(ucast c :: 64 word) AND 0x3e = ucast c"
    unfolding c_def
    by (rule bit_word_eqI) (simp only: bit_and_iff bit_ucast_iff bit_chk11 bit_resv11, auto)
  have "ucast c AND packed = 0"
    using c_resv by (rule and_within_disjoint) (simp add: packed_resv and.commute)
  then have "packed AND ucast c = 0"
    by (simp add: and.commute)
  then have v'_xor: "v' = packed XOR ucast c"
    unfolding v'_def by (rule or_eq_xor_disjoint)
  have "packed AND 0x3c = 0"
    by (rule and_zero_sub [OF packed_resv]) simp
  then have "getHammingCheckBits11 packed = 0"
    by (simp add: getHammingCheckBits11_def)
  then have "syndrome11 packed = drop_bit 2 c"
    by (simp add: syndrome11_def c_def)
  then have syn_v': "syndrome11 v' = 0"
    by (simp add: v'_xor syndrome11_xor syndrome11_chk c_def)
  have "v' AND 2 = 0"
    unfolding v'_def packed_def tag_bit c_def
    by (rule bit_word_eqI)
      (simp only: bit_and_iff bit_or_iff bit_push_bit_iff bit_of_bool_iff bit_ucast_iff
        bit_chk11 bit_two, auto)
  then have "v' AND g = 0"
    by (simp add: g_def)
  then have "v' OR g = v' XOR g"
    by (rule or_eq_xor_disjoint)
  with pack have "PackWithCheckBits11 v t = v' XOR g"
    by simp
  then show ?thesis
    by (simp add: par_xor syndrome11_xor syndrome11_0 syndrome11_2 syn_v' g_def par_2)
qed

lemma bit_flip_table11:
  "list_all (\<lambda>p. if p = 1 then syndrome11 (push_bit p 1) = 0
       else syndrome11 (push_bit p 1) \<noteq> 0 \<and>
            map_sum id fst (mapSyndromeToBitPos11 (syndrome11 (push_bit p 1))) = Inr (of_nat p))
     [0..<16]"
  by code_simp

lemma syndrome_table11:
  "list_all (\<lambda>s. case mapSyndromeToBitPos11 s of
        Inl e \<Rightarrow> False
      | Inr (errBitPos, isCheckBit) \<Rightarrow>
          unat errBitPos < 64 \<and> syndrome11 (push_bit (unat errBitPos) 1) = s)
     (map of_nat [1..<16])"
  by code_simp

lemma flip11_parity: "syndrome11 (push_bit 1 1) = 0"
  by (simp add: syndrome11_2)

lemma flip11_other:
  assumes "p < 16" "p \<noteq> 1"
  shows "syndrome11 (push_bit p 1) \<noteq> 0"
    and "\<exists>b. mapSyndromeToBitPos11 (syndrome11 (push_bit p 1)) = Inr (of_nat p, b)"
proof -
  from assms have "p \<in> set [0..<16]" by simp
  with bit_flip_table11 assms(2)
  have *: "syndrome11 (push_bit p 1) \<noteq> 0 \<and>
      map_sum id fst (mapSyndromeToBitPos11 (syndrome11 (push_bit p 1))) = Inr (of_nat p)"
    unfolding list_all_iff by (auto simp only: split: if_splits)
  then show "syndrome11 (push_bit p 1) \<noteq> 0" by simp
  from * show "\<exists>b. mapSyndromeToBitPos11 (syndrome11 (push_bit p 1)) = Inr (of_nat p, b)"
    by (cases "mapSyndromeToBitPos11 (syndrome11 (push_bit p 1))") auto
qed

lemma map11_total:
  assumes "s \<noteq> 0" "unat s < 16"
  shows "\<exists>e b. mapSyndromeToBitPos11 s = Inr (e, b) \<and> unat e < 64 \<and>
           syndrome11 (push_bit (unat e) 1) = s"
proof -
  from assms have "unat s \<in> set [1..<16]"
    by (simp add: unat_gt_0 Suc_le_eq)
  then have "(of_nat (unat s) :: 8 word) \<in> of_nat ` set [1..<16]"
    by (rule imageI)
  then have "s \<in> set (map of_nat [1..<16] :: 8 word list)"
    by (simp only: set_map of_nat_unat ucast_id)
  with syndrome_table11 show ?thesis
    unfolding list_all_iff by (fastforce split: sum.splits prod.splits)
qed

lemma correct11_pack: "Correct11 (PackWithCheckBits11 v t) = Inr (0, PackWithCheckBits11 v t)"
  by (simp add: Correct11_alt pack11_valid)

lemma correct11_flip1:
  assumes "p < 16"
  shows "Correct11 (PackWithCheckBits11 v t XOR push_bit p 1) = Inr (1, PackWithCheckBits11 v t)"
proof -
  let ?w = "PackWithCheckBits11 v t"
  let ?e = "push_bit p 1 :: 64 word"
  from assms have p64: "p < 64"
    by simp
  have par: "par (?w XOR ?e)"
    using par_bit [OF p64] by (simp only: par_xor pack11_valid) simp
  have syn: "syndrome11 (?w XOR ?e) = syndrome11 ?e"
    by (simp only: syndrome11_xor pack11_valid xor.left_neutral)
  show ?thesis
  proof (cases "p = 1")
    case True
    with par syn flip11_parity show ?thesis
      by (simp add: Correct11_alt xor.assoc)
  next
    case False
    with assms flip11_other [of p] obtain b
      where nz: "syndrome11 ?e \<noteq> 0"
        and m: "mapSyndromeToBitPos11 (syndrome11 ?e) = Inr (of_nat p, b)"
      by blast
    have "unat (of_nat p :: 8 word) = p"
      using p64 by (simp add: unat_of_nat8)
    then show ?thesis
      using par syn nz m by (simp only: Correct11_alt) (simp add: xor.assoc)
  qed
qed

lemma flip11_inj:
  assumes "p < 16" "q < 16" "p \<noteq> q"
  shows "syndrome11 (push_bit p 1) \<noteq> syndrome11 (push_bit q 1)"
proof
  assume eq: "syndrome11 (push_bit p 1) = syndrome11 (push_bit q 1)"
  show False
  proof (cases "p = 1 \<or> q = 1")
    case True
    with assms eq flip11_parity flip11_other(1) [of p] flip11_other(1) [of q] show False
      by metis
  next
    case False
    with assms flip11_other(2) [of p] flip11_other(2) [of q] eq
    have "(of_nat p :: 8 word) = of_nat q"
      by auto
    with assms show False
      using of_nat8_inj [of p q] by simp
  qed
qed

lemma correct11_flip2:
  assumes "p < 16" "q < 16" "p \<noteq> q"
  shows "Correct11 (PackWithCheckBits11 v t XOR push_bit p 1 XOR push_bit q 1) = Inr (2, 0)"
proof -
  let ?w = "PackWithCheckBits11 v t"
  from assms have "p < 64" "q < 64"
    by simp_all
  then have par: "\<not> par (?w XOR push_bit p 1 XOR push_bit q 1)"
    using par_bit [of p] par_bit [of q] by (simp only: par_xor pack11_valid) simp
  have "syndrome11 (?w XOR push_bit p 1 XOR push_bit q 1) =
      syndrome11 (push_bit p 1) XOR syndrome11 (push_bit q 1)"
    by (simp only: syndrome11_xor pack11_valid xor.left_neutral)
  with flip11_inj [OF assms] have "syndrome11 (?w XOR push_bit p 1 XOR push_bit q 1) \<noteq> 0"
    by (simp only: xor_eq_0_iff) simp
  with par show ?thesis
    by (simp only: Correct11_alt) simp
qed

lemma correct11_total: "\<exists>n x. Correct11 w = Inr (n, x)"
proof (cases "syndrome11 w = 0")
  case True
  then show ?thesis
    by (simp add: Correct11_alt)
next
  case False
  with map11_total [OF _ syndrome11_bound, of w] show ?thesis
    by (auto simp add: Correct11_alt)
qed

lemma correct11_idem:
  assumes "Correct11 w = Inr (1, x)"
  shows "Correct11 x = Inr (0, x)"
proof -
  from assms have pw: "par w"
    by (simp add: Correct11_alt split: if_splits)
  show ?thesis
  proof (cases "syndrome11 w = 0")
    case True
    with assms pw have "x = w XOR 2"
      by (simp add: Correct11_alt)
    with pw True show ?thesis
      by (simp add: Correct11_alt par_xor par_2 syndrome11_xor syndrome11_2)
  next
    case False
    with map11_total [OF _ syndrome11_bound, of w] obtain e b
      where m: "mapSyndromeToBitPos11 (syndrome11 w) = Inr (e, b)"
        and e: "unat e < 64" and s: "syndrome11 (push_bit (unat e) 1) = syndrome11 w"
      by blast
    from assms pw False m have "x = w XOR push_bit (unat e) 1"
      by (simp add: Correct11_alt)
    with pw par_bit [OF e] s show ?thesis
      by (simp only: Correct11_alt par_xor syndrome11_xor) simp
  qed
qed

subsection \<open>Package hamming57secded: linearity, valid codewords, single-bit syndromes\<close>

lemma bit_chk57:
  "bit (computeHammingCheckBits57 w) n \<longleftrightarrow>
     n = 7 \<and> par (w AND 0xfffffffe00000000) \<or>
     n = 6 \<and> par (w AND 0xffff0001fffc0000) \<or>
     n = 5 \<and> par (w AND 0xff00ff01fe03f800) \<or>
     n = 4 \<and> par (w AND 0xf0f0f0f1e1e3c700) \<or>
     n = 3 \<and> par (w AND 0xcccccccd999b3601) \<or>
     n = 2 \<and> par (w AND 0xaaaaaaab5556ad01)"
  by (auto simp add: computeHammingCheckBits57_def Let_def computeParity_par bitp_defs bit_simps)

lemma chk57_xor:
  "computeHammingCheckBits57 (x XOR y) = computeHammingCheckBits57 x XOR computeHammingCheckBits57 y"
  by (rule bit_word_eqI) (auto simp add: bit_chk57 bit_xor_iff par_and_xor)

lemma bit_mask57:
  "bit (0xfc :: 'a::len word) n \<longleftrightarrow> 2 \<le> n \<and> n < 8 \<and> n < LENGTH('a)"
proof -
  have "bit (push_bit 2 (mask 6) :: 'a word) n \<longleftrightarrow> 2 \<le> n \<and> n < 8 \<and> n < LENGTH('a)"
    by (simp only: bit_push_bit_iff bit_mask_iff possible_bit_word) auto
  moreover have "push_bit 2 (mask 6) = (0xfc :: 'a word)"
    by (simp add: mask_numeral)
  ultimately show ?thesis
    by (simp only:)
qed

lemma bit_resv57:
  "bit (0xfe :: 'a::len word) n \<longleftrightarrow> 1 \<le> n \<and> n < 8 \<and> n < LENGTH('a)"
proof -
  have "bit (push_bit 1 (mask 7) :: 'a word) n \<longleftrightarrow> 1 \<le> n \<and> n < 8 \<and> n < LENGTH('a)"
    by (simp only: bit_push_bit_iff bit_mask_iff possible_bit_word) auto
  moreover have "push_bit 1 (mask 7) = (0xfe :: 'a word)"
    by (simp add: mask_numeral)
  ultimately show ?thesis
    by (simp only:)
qed

lemma bit_get57: "bit (getHammingCheckBits57 w) n \<longleftrightarrow> 2 \<le> n \<and> n < 8 \<and> bit w n"
  by (simp only: getHammingCheckBits57_def bit_ucast_iff bit_and_iff bit_mask57) auto

lemma get57_xor:
  "getHammingCheckBits57 (x XOR y) = getHammingCheckBits57 x XOR getHammingCheckBits57 y"
  by (rule bit_word_eqI) (auto simp add: bit_get57 bit_xor_iff)

lemma syndrome57_xor: "syndrome57 (x XOR y) = syndrome57 x XOR syndrome57 y"
  by (simp add: syndrome57_def chk57_xor get57_xor ac_simps)

lemma Correct57_alt:
  "Correct57 w =
     (if \<not> par w then (if syndrome57 w = 0 then Inr (0, w) else Inr (2, 0))
      else if syndrome57 w = 0 then Inr (1, w XOR 2)
      else (case mapSyndromeToBitPos57 (syndrome57 w) of
              Inl p \<Rightarrow> Inl p
            | Inr (errBitPos, isCheckBit) \<Rightarrow> Inr (1, w XOR push_bit (unat errBitPos) 1)))"
  by (simp add: Correct57_def Let_def syndrome57_def computeParityInt64_par globalParityBitp_def)

lemma syndrome57_bound: "unat (syndrome57 w) < 64"
proof -
  have "syndrome57 w = take_bit 6 (syndrome57 w)"
    by (rule bit_word_eqI) (auto simp add: syndrome57_def bit_simps bit_chk57 bit_get57)
  then have "unat (syndrome57 w) = take_bit 6 (unat (syndrome57 w))"
    by (metis unsigned_take_bit_eq)
  also have "\<dots> < 2 ^ 6"
    by (rule take_bit_nat_less_exp)
  finally show ?thesis
    by simp
qed

lemma chk57_low: "w AND 0xfe = w \<Longrightarrow> computeHammingCheckBits57 w = 0"
proof -
  assume low: "w AND 0xfe = w"
  have "w AND 0xfffffffe00000000 = 0" "w AND 0xffff0001fffc0000 = 0" "w AND 0xff00ff01fe03f800 = 0" "w AND 0xf0f0f0f1e1e3c700 = 0" "w AND 0xcccccccd999b3601 = 0" "w AND 0xaaaaaaab5556ad01 = 0"
    by (rule and_within_disjoint [OF low], simp)+
  then show ?thesis
    by (intro bit_word_eqI) (simp add: bit_chk57)
qed

lemma syndrome57_chk:
  "syndrome57 (ucast (computeHammingCheckBits57 x)) = drop_bit 2 (computeHammingCheckBits57 x)"
proof -
  let ?c = "computeHammingCheckBits57 x"
  have low: "(ucast ?c :: 64 word) AND 0xfe = ucast ?c"
    by (rule bit_word_eqI) (simp only: bit_and_iff bit_ucast_iff bit_chk57 bit_resv57, auto)
  have "getHammingCheckBits57 (ucast ?c) = ?c"
    by (rule bit_word_eqI) (auto simp add: bit_get57 bit_ucast_iff bit_chk57)
  with chk57_low [OF low] show ?thesis
    by (simp add: syndrome57_def)
qed

lemma syndrome57_0: "syndrome57 0 = 0"
  by (simp add: syndrome57_def chk57_low getHammingCheckBits57_def)

lemma syndrome57_2: "syndrome57 2 = 0"
  by (simp add: syndrome57_def chk57_low getHammingCheckBits57_def)

lemma pack57_valid:
  "\<not> par (PackWithCheckBits57 v t) \<and> syndrome57 (PackWithCheckBits57 v t) = 0"
proof -
  define packed :: "64 word" where "packed = push_bit 8 v OR word_of_int (t AND 1)"
  define c where "c = computeHammingCheckBits57 packed"
  define v' where "v' = packed OR ucast c"
  define g :: "64 word" where "g = (if par v' then 2 else 0)"
  have pack: "PackWithCheckBits57 v t = v' OR g"
    by (simp add: PackWithCheckBits57_def Let_def packed_def c_def v'_def g_def
        computeParityInt64_par globalParityBitp_def)
  have packed_resv: "packed AND 0xfe = 0"
    unfolding packed_def tag_bit
    by (rule bit_word_eqI)
      (simp only: bit_and_iff bit_or_iff bit_push_bit_iff bit_resv57 bit_of_bool_iff, auto)
  have c_resv: "(ucast c :: 64 word) AND 0xfe = ucast c"
    unfolding c_def
    by (rule bit_word_eqI) (simp only: bit_and_iff bit_ucast_iff bit_chk57 bit_resv57, auto)
  have "ucast c AND packed = 0"
    using c_resv by (rule and_within_disjoint) (simp add: packed_resv and.commute)
  then have "packed AND ucast c = 0"
    by (simp add: and.commute)
  then have v'_xor: "v' = packed XOR ucast c"
    unfolding v'_def by (rule or_eq_xor_disjoint)
  have "packed AND 0xfc = 0"
    by (rule and_zero_sub [OF packed_resv]) simp
  then have "getHammingCheckBits57 packed = 0"
    by (simp add: getHammingCheckBits57_def)
  then have "syndrome57 packed = drop_bit 2 c"
    by (simp add: syndrome57_def c_def)
  then have syn_v': "syndrome57 v' = 0"
    by (simp add: v'_xor syndrome57_xor syndrome57_chk c_def)
  have "v' AND 2 = 0"
    unfolding v'_def packed_def tag_bit c_def
    by (rule bit_word_eqI)
      (simp only: bit_and_iff bit_or_iff bit_push_bit_iff bit_of_bool_iff bit_ucast_iff
        bit_chk57 bit_two, auto)
  then have "v' AND g = 0"
    by (simp add: g_def)
  then have "v' OR g = v' XOR g"
    by (rule or_eq_xor_disjoint)
  with pack have "PackWithCheckBits57 v t = v' XOR g"
    by simp
  then show ?thesis
    by (simp add: par_xor syndrome57_xor syndrome57_0 syndrome57_2 syn_v' g_def par_2)
qed

lemma bit_flip_table57:
  "list_all (\<lambda>p. if p = 1 then syndrome57 (push_bit p 1) = 0
       else syndrome57 (push_bit p 1) \<noteq> 0 \<and>
            map_sum id fst (mapSyndromeToBitPos57 (syndrome57 (push_bit p 1))) = Inr (of_nat p))
     [0..<64]"
  by code_simp

lemma syndrome_table57:
  "list_all (\<lambda>s. case mapSyndromeToBitPos57 s of
        Inl e \<Rightarrow> False
      | Inr (errBitPos, isCheckBit) \<Rightarrow>
          unat errBitPos < 64 \<and> syndrome57 (push_bit (unat errBitPos) 1) = s)
     (map of_nat [1..<64])"
  by code_simp

lemma flip57_parity: "syndrome57 (push_bit 1 1) = 0"
  by (simp add: syndrome57_2)

lemma flip57_other:
  assumes "p < 64" "p \<noteq> 1"
  shows "syndrome57 (push_bit p 1) \<noteq> 0"
    and "\<exists>b. mapSyndromeToBitPos57 (syndrome57 (push_bit p 1)) = Inr (of_nat p, b)"
proof -
  from assms have "p \<in> set [0..<64]" by simp
  with bit_flip_table57 assms(2)
  have *: "syndrome57 (push_bit p 1) \<noteq> 0 \<and>
      map_sum id fst (mapSyndromeToBitPos57 (syndrome57 (push_bit p 1))) = Inr (of_nat p)"
    unfolding list_all_iff by (auto simp only: split: if_splits)
  then show "syndrome57 (push_bit p 1) \<noteq> 0" by simp
  from * show "\<exists>b. mapSyndromeToBitPos57 (syndrome57 (push_bit p 1)) = Inr (of_nat p, b)"
    by (cases "mapSyndromeToBitPos57 (syndrome57 (push_bit p 1))") auto
qed

lemma map57_total:
  assumes "s \<noteq> 0" "unat s < 64"
  shows "\<exists>e b. mapSyndromeToBitPos57 s = Inr (e, b) \<and> unat e < 64 \<and>
           syndrome57 (push_bit (unat e) 1) = s"
proof -
  from assms have "unat s \<in> set [1..<64]"
    by (simp add: unat_gt_0 Suc_le_eq)
  then have "(of_nat (unat s) :: 8 word) \<in> of_nat ` set [1..<64]"
    by (rule imageI)
  then have "s \<in> set (map of_nat [1..<64] :: 8 word list)"
    by (simp only: set_map of_nat_unat ucast_id)
  with syndrome_table57 show ?thesis
    unfolding list_all_iff by (fastforce split: sum.splits prod.splits)
qed

lemma correct57_pack: "Correct57 (PackWithCheckBits57 v t) = Inr (0, PackWithCheckBits57 v t)"
  by (simp add: Correct57_alt pack57_valid)

lemma correct57_flip1:
  assumes "p < 64"
  shows "Correct57 (PackWithCheckBits57 v t XOR push_bit p 1) = Inr (1, PackWithCheckBits57 v t)"
proof -
  let ?w = "PackWithCheckBits57 v t"
  let ?e = "push_bit p 1 :: 64 word"
  from assms have p64: "p < 64"
    by simp
  have par: "par (?w XOR ?e)"
    using par_bit [OF p64] by (simp only: par_xor pack57_valid) simp
  have syn: "syndrome57 (?w XOR ?e) = syndrome57 ?e"
    by (simp only: syndrome57_xor pack57_valid xor.left_neutral)
  show ?thesis
  proof (cases "p = 1")
    case True
    with par syn flip57_parity show ?thesis
      by (simp add: Correct57_alt xor.assoc)
  next
    case False
    with assms flip57_other [of p] obtain b
      where nz: "syndrome57 ?e \<noteq> 0"
        and m: "mapSyndromeToBitPos57 (syndrome57 ?e) = Inr (of_nat p, b)"
      by blast
    have "unat (of_nat p :: 8 word) = p"
      using p64 by (simp add: unat_of_nat8)
    then show ?thesis
      using par syn nz m by (simp only: Correct57_alt) (simp add: xor.assoc)
  qed
qed

lemma flip57_inj:
  assumes "p < 64" "q < 64" "p \<noteq> q"
  shows "syndrome57 (push_bit p 1) \<noteq> syndrome57 (push_bit q 1)"
proof
  assume eq: "syndrome57 (push_bit p 1) = syndrome57 (push_bit q 1)"
  show False
  proof (cases "p = 1 \<or> q = 1")
    case True
    with assms eq flip57_parity flip57_other(1) [of p] flip57_other(1) [of q] show False
      by metis
  next
    case False
    with assms flip57_other(2) [of p] flip57_other(2) [of q] eq
    have "(of_nat p :: 8 word) = of_nat q"
      by auto
    with assms show False
      using of_nat8_inj [of p q] by simp
  qed
qed

lemma correct57_flip2:
  assumes "p < 64" "q < 64" "p \<noteq> q"
  shows "Correct57 (PackWithCheckBits57 v t XOR push_bit p 1 XOR push_bit q 1) = Inr (2, 0)"
proof -
  let ?w = "PackWithCheckBits57 v t"
  from assms have "p < 64" "q < 64"
    by simp_all
  then have par: "\<not> par (?w XOR push_bit p 1 XOR push_bit q 1)"
    using par_bit [of p] par_bit [of q] by (simp only: par_xor pack57_valid) simp
  have "syndrome57 (?w XOR push_bit p 1 XOR push_bit q 1) =
      syndrome57 (push_bit p 1) XOR syndrome57 (push_bit q 1)"
    by (simp only: syndrome57_xor pack57_valid xor.left_neutral)
  with flip57_inj [OF assms] have "syndrome57 (?w XOR push_bit p 1 XOR push_bit q 1) \<noteq> 0"
    by (simp only: xor_eq_0_iff) simp
  with par show ?thesis
    by (simp only: Correct57_alt) simp
qed

lemma correct57_total: "\<exists>n x. Correct57 w = Inr (n, x)"
proof (cases "syndrome57 w = 0")
  case True
  then show ?thesis
    by (simp add: Correct57_alt)
next
  case False
  with map57_total [OF _ syndrome57_bound, of w] show ?thesis
    by (auto simp add: Correct57_alt)
qed

lemma correct57_idem:
  assumes "Correct57 w = Inr (1, x)"
  shows "Correct57 x = Inr (0, x)"
proof -
  from assms have pw: "par w"
    by (simp add: Correct57_alt split: if_splits)
  show ?thesis
  proof (cases "syndrome57 w = 0")
    case True
    with assms pw have "x = w XOR 2"
      by (simp add: Correct57_alt)
    with pw True show ?thesis
      by (simp add: Correct57_alt par_xor par_2 syndrome57_xor syndrome57_2)
  next
    case False
    with map57_total [OF _ syndrome57_bound, of w] obtain e b
      where m: "mapSyndromeToBitPos57 (syndrome57 w) = Inr (e, b)"
        and e: "unat e < 64" and s: "syndrome57 (push_bit (unat e) 1) = syndrome57 w"
      by blast
    from assms pw False m have "x = w XOR push_bit (unat e) 1"
      by (simp add: Correct57_alt)
    with pw par_bit [OF e] s show ?thesis
      by (simp only: Correct57_alt par_xor syndrome57_xor) simp
  qed
qed


section \<open>The properties of the specification\<close>

text \<open>
  C2 (round trip with zero errors). In each of the three packages, for every input value
  within the width of the Value field (3, 10 and 56 bits) and every tag bit 0 or 1,
  \<open>Correct\<close> applied to the packed codeword returns error count 0 and the codeword
  itself, unchanged.
\<close>

theorem roundtrip_zero_errors:
  "(\<forall>v t. v < 2 ^ 3 \<and> t \<in> {0, 1} \<longrightarrow>
      Correct4 (PackWithCheckBits4 v t) = Inr (0, PackWithCheckBits4 v t)) \<and>
   (\<forall>v t. v < 2 ^ 10 \<and> t \<in> {0, 1} \<longrightarrow>
      Correct11 (PackWithCheckBits11 v t) = Inr (0, PackWithCheckBits11 v t)) \<and>
   (\<forall>v t. v < 2 ^ 56 \<and> t \<in> {0, 1} \<longrightarrow>
      Correct57 (PackWithCheckBits57 v t) = Inr (0, PackWithCheckBits57 v t))"
  by (simp only: correct4_pack correct11_pack correct57_pack) simp

theorem roundtrip_zero_errors_witness:
  "((5 :: 64 word) < 2 ^ 3 \<and> (1 :: int) \<in> {0, 1}) \<and>
   Correct4 (PackWithCheckBits4 5 1) = Inr (0, PackWithCheckBits4 5 1) \<and>
   ((0x2ab :: 64 word) < 2 ^ 10 \<and> (0 :: int) \<in> {0, 1}) \<and>
   Correct11 (PackWithCheckBits11 0x2ab 0) = Inr (0, PackWithCheckBits11 0x2ab 0) \<and>
   ((0x123456789abcd :: 64 word) < 2 ^ 56 \<and> (1 :: int) \<in> {0, 1}) \<and>
   Correct57 (PackWithCheckBits57 0x123456789abcd 1) =
     Inr (0, PackWithCheckBits57 0x123456789abcd 1)"
  using roundtrip_zero_errors [THEN conjunct1, rule_format, of 5 1]
    roundtrip_zero_errors [THEN conjunct2, THEN conjunct1, rule_format, of "0x2ab" 0]
    roundtrip_zero_errors [THEN conjunct2, THEN conjunct2, rule_format, of "0x123456789abcd" 1]
  by simp

text \<open>
  C1 (single-bit correction, exhaustive). In each package, for every codeword
  \<open>w = pack(v, t)\<close> with \<open>v\<close> within the Value field and \<open>t\<close> in {0, 1}, and for every
  bit position \<open>p\<close> of the codeword (below 8, 16 and 64), \<open>Correct\<close> applied to \<open>w\<close>
  with bit \<open>p\<close> flipped returns error count 1 and the original codeword \<open>w\<close>.
\<close>

theorem single_bit_correction:
  "(\<forall>v t p. v < 2 ^ 3 \<and> t \<in> {0, 1} \<and> p < 8 \<longrightarrow>
      Correct4 (PackWithCheckBits4 v t XOR push_bit p 1) = Inr (1, PackWithCheckBits4 v t)) \<and>
   (\<forall>v t p. v < 2 ^ 10 \<and> t \<in> {0, 1} \<and> p < 16 \<longrightarrow>
      Correct11 (PackWithCheckBits11 v t XOR push_bit p 1) = Inr (1, PackWithCheckBits11 v t)) \<and>
   (\<forall>v t p. v < 2 ^ 56 \<and> t \<in> {0, 1} \<and> p < 64 \<longrightarrow>
      Correct57 (PackWithCheckBits57 v t XOR push_bit p 1) = Inr (1, PackWithCheckBits57 v t))"
  using correct4_flip1 correct11_flip1 correct57_flip1 by blast

theorem single_bit_correction_witness:
  "((5 :: 64 word) < 2 ^ 3 \<and> (1 :: int) \<in> {0, 1} \<and> (6 :: nat) < 8) \<and>
   Correct4 (PackWithCheckBits4 5 1 XOR push_bit 6 1) = Inr (1, PackWithCheckBits4 5 1) \<and>
   ((0x2ab :: 64 word) < 2 ^ 10 \<and> (0 :: int) \<in> {0, 1} \<and> (15 :: nat) < 16) \<and>
   Correct11 (PackWithCheckBits11 0x2ab 0 XOR push_bit 15 1) =
     Inr (1, PackWithCheckBits11 0x2ab 0) \<and>
   ((0x123456789abcd :: 64 word) < 2 ^ 56 \<and> (1 :: int) \<in> {0, 1} \<and> (40 :: nat) < 64) \<and>
   Correct57 (PackWithCheckBits57 0x123456789abcd 1 XOR push_bit 40 1) =
     Inr (1, PackWithCheckBits57 0x123456789abcd 1)"
  using single_bit_correction [THEN conjunct1, rule_format, of 5 1 6]
    single_bit_correction [THEN conjunct2, THEN conjunct1, rule_format, of "0x2ab" 0 15]
    single_bit_correction [THEN conjunct2, THEN conjunct2, rule_format,
      of "0x123456789abcd" 1 40]
  by simp

text \<open>
  C3 (double-bit detection). In each package, for every valid codeword \<open>w = pack(v, t)\<close>
  and every two distinct bit positions \<open>p\<close> and \<open>q\<close> of the codeword, \<open>Correct\<close>
  applied to \<open>w\<close> with both bits flipped returns error count 2 and the sentinel 0: never
  0 or 1 errors, never a wrongly corrected value.
\<close>

theorem double_bit_detection:
  "(\<forall>v t p q. v < 2 ^ 3 \<and> t \<in> {0, 1} \<and> p < 8 \<and> q < 8 \<and> p \<noteq> q \<longrightarrow>
      Correct4 (PackWithCheckBits4 v t XOR push_bit p 1 XOR push_bit q 1) = Inr (2, 0)) \<and>
   (\<forall>v t p q. v < 2 ^ 10 \<and> t \<in> {0, 1} \<and> p < 16 \<and> q < 16 \<and> p \<noteq> q \<longrightarrow>
      Correct11 (PackWithCheckBits11 v t XOR push_bit p 1 XOR push_bit q 1) = Inr (2, 0)) \<and>
   (\<forall>v t p q. v < 2 ^ 56 \<and> t \<in> {0, 1} \<and> p < 64 \<and> q < 64 \<and> p \<noteq> q \<longrightarrow>
      Correct57 (PackWithCheckBits57 v t XOR push_bit p 1 XOR push_bit q 1) = Inr (2, 0))"
  using correct4_flip2 correct11_flip2 correct57_flip2 by blast

theorem double_bit_detection_witness:
  "((5 :: 64 word) < 2 ^ 3 \<and> (1 :: int) \<in> {0, 1} \<and> (3 :: nat) < 8 \<and> (6 :: nat) < 8 \<and>
      (3 :: nat) \<noteq> 6) \<and>
   Correct4 (PackWithCheckBits4 5 1 XOR push_bit 3 1 XOR push_bit 6 1) = Inr (2, 0) \<and>
   ((0x2ab :: 64 word) < 2 ^ 10 \<and> (0 :: int) \<in> {0, 1} \<and> (0 :: nat) < 16 \<and> (15 :: nat) < 16 \<and>
      (0 :: nat) \<noteq> 15) \<and>
   Correct11 (PackWithCheckBits11 0x2ab 0 XOR push_bit 0 1 XOR push_bit 15 1) = Inr (2, 0) \<and>
   ((0x123456789abcd :: 64 word) < 2 ^ 56 \<and> (1 :: int) \<in> {0, 1} \<and> (1 :: nat) < 64 \<and>
      (63 :: nat) < 64 \<and> (1 :: nat) \<noteq> 63) \<and>
   Correct57 (PackWithCheckBits57 0x123456789abcd 1 XOR push_bit 1 1 XOR push_bit 63 1) =
     Inr (2, 0)"
  using double_bit_detection [THEN conjunct1, rule_format, of 5 1 3 6]
    double_bit_detection [THEN conjunct2, THEN conjunct1, rule_format, of "0x2ab" 0 0 15]
    double_bit_detection [THEN conjunct2, THEN conjunct2, rule_format,
      of "0x123456789abcd" 1 1 63]
  by simp

text \<open>
  C4 (concrete scenario, package hamming4secded). \<open>PackWithCheckBits(0b101, 1)\<close> is the
  8-bit integer 165 (0xa5); \<open>Correct\<close> of 165 with bit 6 flipped returns (1, 165); and
  \<open>Correct\<close> of 165 with bits 3 and 6 flipped returns (2, 0).
\<close>

theorem concrete_scenario_variant_A:
  "PackWithCheckBits4 0b101 1 = 165 \<and>
   (165 :: 64 word) < 2 ^ 8 \<and>
   Correct4 (165 XOR push_bit 6 1) = Inr (1, 165) \<and>
   Correct4 (165 XOR push_bit 3 1 XOR push_bit 6 1) = Inr (2, 0)"
  by code_simp


text \<open>
  C5 (no fatal error). In each package \<open>Correct\<close> returns a result for every 64-bit
  argument, codeword or not: neither \<open>panic\<close> of \<open>mapSyndromeToBitPos\<close> is reached.
  The syndrome that \<open>Correct\<close> computes always fits in 3, 4 and 6 bits. (The function is
  total by definition, and the loop of \<open>onesCount64\<close> was shown to terminate.)
\<close>

theorem correct_never_panics:
  "(\<exists>n x. Correct4 w = Inr (n, x)) \<and> unat (syndrome4 w) < 2 ^ 3 \<and>
   (\<exists>n x. Correct11 w = Inr (n, x)) \<and> unat (syndrome11 w) < 2 ^ 4 \<and>
   (\<exists>n x. Correct57 w = Inr (n, x)) \<and> unat (syndrome57 w) < 2 ^ 6"
  using correct4_total [of w] correct11_total [of w] correct57_total [of w]
    syndrome4_bound [of w] syndrome11_bound [of w] syndrome57_bound [of w]
  by simp

text \<open>
  C9 (the sentinel is also a codeword). In each package \<open>PackWithCheckBits(0, 0)\<close> is 0
  and \<open>Correct(0)\<close> is (0, 0), while a word with two flipped bits gives (2, 0): the
  integer returned for an uncorrectable error is the codeword of value 0 with tag 0, and
  only the error count tells the two apart.
\<close>

theorem sentinel_is_a_codeword:
  "PackWithCheckBits4 0 0 = 0 \<and> Correct4 0 = Inr (0, 0) \<and>
   Correct4 (PackWithCheckBits4 0 0 XOR push_bit 5 1 XOR push_bit 6 1) = Inr (2, 0) \<and>
   PackWithCheckBits11 0 0 = 0 \<and> Correct11 0 = Inr (0, 0) \<and>
   Correct11 (PackWithCheckBits11 0 0 XOR push_bit 5 1 XOR push_bit 6 1) = Inr (2, 0) \<and>
   PackWithCheckBits57 0 0 = 0 \<and> Correct57 0 = Inr (0, 0) \<and>
   Correct57 (PackWithCheckBits57 0 0 XOR push_bit 5 1 XOR push_bit 6 1) = Inr (2, 0)"
  by code_simp

text \<open>
  C10 (a single-error repair yields a valid codeword). In each package, for every 64-bit
  argument \<open>w\<close>, if \<open>Correct w\<close> returns \<open>(1, x)\<close> then \<open>Correct x\<close> returns \<open>(0, x)\<close>.
\<close>

theorem repair_yields_valid_codeword:
  "(\<forall>w x. Correct4 w = Inr (1, x) \<longrightarrow> Correct4 x = Inr (0, x)) \<and>
   (\<forall>w x. Correct11 w = Inr (1, x) \<longrightarrow> Correct11 x = Inr (0, x)) \<and>
   (\<forall>w x. Correct57 w = Inr (1, x) \<longrightarrow> Correct57 x = Inr (0, x))"
  using correct4_idem correct11_idem correct57_idem by blast

theorem repair_yields_valid_codeword_witness:
  "Correct4 0x4000000000000081 = Inr (1, 0x4000000000000091) \<and>
   Correct4 0x4000000000000091 = Inr (0, 0x4000000000000091) \<and>
   Correct11 0x4000000000010001 = Inr (1, 0x4000000000010000) \<and>
   Correct11 0x4000000000010000 = Inr (0, 0x4000000000010000) \<and>
   Correct57 0x0100000000010100 = Inr (1, 0x0108000000010100) \<and>
   Correct57 0x0108000000010100 = Inr (0, 0x0108000000010100)"
proof -
  have a: "Correct4 0x4000000000000081 = Inr (1, 0x4000000000000091)"
    by code_simp
  have b: "Correct11 0x4000000000010001 = Inr (1, 0x4000000000010000)"
    by code_simp
  have c: "Correct57 0x0100000000010100 = Inr (1, 0x0108000000010100)"
    by code_simp
  from a b c
    repair_yields_valid_codeword [THEN conjunct1, rule_format, OF a]
    repair_yields_valid_codeword [THEN conjunct2, THEN conjunct1, rule_format, OF b]
    repair_yields_valid_codeword [THEN conjunct2, THEN conjunct2, rule_format, OF c]
  show ?thesis
    by (simp only: simp_thms)
qed


section \<open>Population count as a number of set bits\<close>

lemma bits_nat_unfold:
  "{i. bit n i} = (if odd n then {0} else {}) \<union> Suc ` {i. bit (n div 2) i}" for n :: nat
proof (rule set_eqI)
  fix i
  show "i \<in> {i. bit n i} \<longleftrightarrow> i \<in> (if odd n then {0} else {}) \<union> Suc ` {i. bit (n div 2) i}"
    by (cases i) (auto simp add: bit_0 bit_Suc)
qed

lemma popc_card_nat: "finite {i. bit n i} \<and> popc n = card {i. bit n i}" for n :: nat
proof (induction n rule: popc.induct)
  case (1 n)
  show ?case
  proof (cases "n = 0")
    case True
    then show ?thesis by simp
  next
    case False
    let ?A = "{i. bit (n div 2) i}"
    from 1 [OF False] have fin: "finite ?A" and ih: "popc (n div 2) = card ?A"
      by simp_all
    have c: "card (Suc ` ?A) = card ?A"
      by (rule card_image) simp
    have "finite {i. bit n i}"
      by (subst bits_nat_unfold) (simp add: fin)
    moreover have "popc n = card {i. bit n i}"
      by (subst popc_rec, subst bits_nat_unfold) (auto simp add: fin ih c mod_2_eq_odd)
    ultimately show ?thesis by simp
  qed
qed

lemma bits_word_nat: "{n. bit x n} = {n. bit (unat x) n}" for x :: "64 word"
  by (auto simp add: bit_unsigned_iff)

text \<open>\<open>onesCount64\<close> returns the number of set bits of its argument.\<close>

lemma onesCount64_card: "onesCount64 x = int (card {n. bit x n})"
  by (simp add: bits_word_nat onesCount64_popc popc_card_nat)

lemma par_card: "par x \<longleftrightarrow> odd (card {n. bit x n})"
  by (simp add: par_def bits_word_nat popc_card_nat)

lemma finite_bits_word: "finite {n. bit x n}" for x :: "64 word"
  by (simp add: bits_word_nat popc_card_nat)

lemma card_without_member:
  assumes "finite S" "even (card S)"
  shows "a \<in> S \<longleftrightarrow> odd (card (S - {a}))"
proof (cases "a \<in> S")
  case True
  with assms(1) have "card S = Suc (card (S - {a}))"
    by (rule card.remove)
  with assms(2) have "odd (card (S - {a}))"
    by simp
  with True show ?thesis
    by simp
next
  case False
  then have "S - {a} = S"
    by blast
  with assms False show ?thesis
    by simp
qed

lemma pack_even_bits:
  assumes "\<not> par w"
  shows "even (onesCount64 w) \<and> even (card {n. bit w n}) \<and>
    (bit w 1 \<longleftrightarrow> odd (card {n. n \<noteq> 1 \<and> bit w n}))"
proof -
  from assms have ev: "even (card {n. bit w n})"
    by (simp add: par_card)
  have m: "1 \<in> {n. bit w n} \<longleftrightarrow> odd (card ({n. bit w n} - {1}))"
    using finite_bits_word ev by (rule card_without_member)
  have s: "{n. bit w n} - {1} = {n. n \<noteq> 1 \<and> bit w n}"
    by blast
  from m have "bit w 1 \<longleftrightarrow> odd (card {n. n \<noteq> 1 \<and> bit w n})"
    unfolding s by (simp only: mem_Collect_eq)
  moreover from ev have "even (onesCount64 w)"
    by (simp only: onesCount64_card even_of_nat)
  ultimately show ?thesis
    using ev by blast
qed

text \<open>
  C6 (freshly packed codewords have even overall parity). In each package, for every
  64-bit input value (inside the Value field or not) and every tag bit, the population
  count of the packed codeword is even, as \<open>onesCount64\<close> counts it and as the number of
  set bits; and the global parity bit, position 1, is set exactly when the rest of the
  word has an odd number of set bits.
\<close>

theorem packed_codeword_even_parity:
  "even (onesCount64 (PackWithCheckBits4 v t)) \<and>
   even (card {n. bit (PackWithCheckBits4 v t) n}) \<and>
   (bit (PackWithCheckBits4 v t) 1 \<longleftrightarrow>
      odd (card {n. n \<noteq> 1 \<and> bit (PackWithCheckBits4 v t) n})) \<and>
   even (onesCount64 (PackWithCheckBits11 v t)) \<and>
   even (card {n. bit (PackWithCheckBits11 v t) n}) \<and>
   (bit (PackWithCheckBits11 v t) 1 \<longleftrightarrow>
      odd (card {n. n \<noteq> 1 \<and> bit (PackWithCheckBits11 v t) n})) \<and>
   even (onesCount64 (PackWithCheckBits57 v t)) \<and>
   even (card {n. bit (PackWithCheckBits57 v t) n}) \<and>
   (bit (PackWithCheckBits57 v t) 1 \<longleftrightarrow>
      odd (card {n. n \<noteq> 1 \<and> bit (PackWithCheckBits57 v t) n}))"
  using pack_even_bits [of "PackWithCheckBits4 v t"] pack_even_bits [of "PackWithCheckBits11 v t"]
    pack_even_bits [of "PackWithCheckBits57 v t"]
  by (simp only: pack4_valid pack11_valid pack57_valid simp_thms)


section \<open>The syndrome table and the width of the input value\<close>

lemma word8_cases: "unat s < n \<Longrightarrow> s \<in> set (map of_nat [0..<n])" for s :: "8 word"
proof -
  assume "unat s < n"
  then have "unat s \<in> set [0..<n]"
    by simp
  then have "(of_nat (unat s) :: 8 word) \<in> of_nat ` set [0..<n]"
    by (rule imageI)
  then show ?thesis
    by (simp only: set_map of_nat_unat ucast_id)
qed

lemma check_positions4:
  "list_all (\<lambda>i. mapSyndromeToBitPos4 (2 ^ i) = Inr (of_nat (i + 2), True)) [0..<3]"
  by code_simp

lemma check_positions11:
  "list_all (\<lambda>i. mapSyndromeToBitPos11 (2 ^ i) = Inr (of_nat (i + 2), True)) [0..<4]"
  by code_simp

lemma check_positions57:
  "list_all (\<lambda>i. mapSyndromeToBitPos57 (2 ^ i) = Inr (of_nat (i + 2), True)) [0..<6]"
  by code_simp

lemma value_positions4:
  "list_all (\<lambda>s. 4 < s \<longrightarrow>
       mapSyndromeToBitPos4 s = Inr (s + of_nat (thresholds_above 3 (unat s)), False))
     (map of_nat [0..<8])"
  by code_simp

lemma value_positions11:
  "list_all (\<lambda>s. 4 < s \<and> s \<noteq> 8 \<longrightarrow>
       mapSyndromeToBitPos11 s = Inr (s + of_nat (thresholds_above 4 (unat s)), False))
     (map of_nat [0..<16])"
  by code_simp

lemma value_positions57:
  "list_all (\<lambda>s. 4 < s \<and> s \<notin> {8, 16, 32} \<longrightarrow>
       mapSyndromeToBitPos57 s = Inr (s + of_nat (thresholds_above 6 (unat s)), False))
     (map of_nat [0..<64])"
  by code_simp

text \<open>
  C7, as the specification states it, fails: in package hamming4secded the syndrome 5
  is mapped to position 5, with no adjustment, although the thresholds 1, 2 and 4 lie
  at or below 5 (the rule of the specification gives position 8, outside the 8-bit
  codeword).
\<close>

theorem syndrome_map_spec_rule_counterexample:
  "mapSyndromeToBitPos4 5 = Inr (5, False) \<and> spec_valueBitPos 5 = 8 \<and>
   mapSyndromeToBitPos4 5 \<noteq> Inr (of_nat (spec_valueBitPos 5), False)"
  by code_simp

text \<open>
  C7, amended. In each package \<open>mapSyndromeToBitPos\<close> maps the syndrome 3 to position
  0, the Tag bit; a power of two \<open>2 ^ i\<close> with \<open>i\<close> below the number \<open>r\<close> of check bits
  to the check-bit position \<open>i + 2\<close>; and any other syndrome \<open>s\<close> above 4 and below
  \<open>2 ^ r\<close> to the Value position \<open>s\<close> plus 1 for each check-bit threshold \<open>2 ^ i\<close>,
  \<open>i < r\<close>, that lies above \<open>s\<close> (so the syndromes above \<open>2 ^ (r - 1)\<close> map to
  themselves).
\<close>

theorem syndrome_map_table:
  "mapSyndromeToBitPos4 3 = Inr (0, False) \<and>
   (\<forall>i. i < 3 \<longrightarrow> mapSyndromeToBitPos4 (2 ^ i) = Inr (of_nat (i + 2), True)) \<and>
   (\<forall>s. 4 < s \<and> s < 2 ^ 3 \<longrightarrow>
      mapSyndromeToBitPos4 s = Inr (s + of_nat (thresholds_above 3 (unat s)), False)) \<and>
   mapSyndromeToBitPos11 3 = Inr (0, False) \<and>
   (\<forall>i. i < 4 \<longrightarrow> mapSyndromeToBitPos11 (2 ^ i) = Inr (of_nat (i + 2), True)) \<and>
   (\<forall>s. 4 < s \<and> s < 2 ^ 4 \<and> s \<noteq> 8 \<longrightarrow>
      mapSyndromeToBitPos11 s = Inr (s + of_nat (thresholds_above 4 (unat s)), False)) \<and>
   mapSyndromeToBitPos57 3 = Inr (0, False) \<and>
   (\<forall>i. i < 6 \<longrightarrow> mapSyndromeToBitPos57 (2 ^ i) = Inr (of_nat (i + 2), True)) \<and>
   (\<forall>s. 4 < s \<and> s < 2 ^ 6 \<and> s \<notin> {8, 16, 32} \<longrightarrow>
      mapSyndromeToBitPos57 s = Inr (s + of_nat (thresholds_above 6 (unat s)), False))"
proof -
  have t4: "mapSyndromeToBitPos4 3 = Inr (0, False)"
    and t11: "mapSyndromeToBitPos11 3 = Inr (0, False)"
    and t57: "mapSyndromeToBitPos57 3 = Inr (0, False)"
    by (simp_all add: mapSyndromeToBitPos4_def mapSyndromeToBitPos11_def
        mapSyndromeToBitPos57_def)
  have c4: "\<forall>i. i < 3 \<longrightarrow> mapSyndromeToBitPos4 (2 ^ i) = Inr (of_nat (i + 2), True)"
    using check_positions4 unfolding list_all_iff by simp
  have c11: "\<forall>i. i < 4 \<longrightarrow> mapSyndromeToBitPos11 (2 ^ i) = Inr (of_nat (i + 2), True)"
    using check_positions11 unfolding list_all_iff by simp
  have c57: "\<forall>i. i < 6 \<longrightarrow> mapSyndromeToBitPos57 (2 ^ i) = Inr (of_nat (i + 2), True)"
    using check_positions57 unfolding list_all_iff by simp
  have v4: "mapSyndromeToBitPos4 s = Inr (s + of_nat (thresholds_above 3 (unat s)), False)"
    if "4 < s \<and> s < 2 ^ 3" for s
  proof -
    from that have "unat s < 8"
      by (simp add: word_less_nat_alt)
    then have "s \<in> set (map of_nat [0..<8])"
      by (rule word8_cases)
    with value_positions4 that show ?thesis
      unfolding list_all_iff by blast
  qed
  have v11: "mapSyndromeToBitPos11 s = Inr (s + of_nat (thresholds_above 4 (unat s)), False)"
    if "4 < s \<and> s < 2 ^ 4 \<and> s \<noteq> 8" for s
  proof -
    from that have "unat s < 16"
      by (simp add: word_less_nat_alt)
    then have "s \<in> set (map of_nat [0..<16])"
      by (rule word8_cases)
    with value_positions11 that show ?thesis
      unfolding list_all_iff by blast
  qed
  have v57: "mapSyndromeToBitPos57 s = Inr (s + of_nat (thresholds_above 6 (unat s)), False)"
    if "4 < s \<and> s < 2 ^ 6 \<and> s \<notin> {8, 16, 32}" for s
  proof -
    from that have "unat s < 64"
      by (simp add: word_less_nat_alt)
    then have "s \<in> set (map of_nat [0..<64])"
      by (rule word8_cases)
    with value_positions57 that show ?thesis
      unfolding list_all_iff by blast
  qed
  from t4 t11 t57 c4 c11 c57 v4 v11 v57 show ?thesis
    by blast
qed

theorem syndrome_map_table_witness:
  "((2 :: nat) < 3 \<and> mapSyndromeToBitPos4 (2 ^ 2) = Inr (4, True)) \<and>
   (((4 :: 8 word) < 5 \<and> (5 :: 8 word) < 2 ^ 3) \<and> thresholds_above 3 (unat (5 :: 8 word)) = 0 \<and>
      mapSyndromeToBitPos4 5 = Inr (5, False)) \<and>
   ((3 :: nat) < 4 \<and> mapSyndromeToBitPos11 (2 ^ 3) = Inr (5, True)) \<and>
   (((4 :: 8 word) < 5 \<and> (5 :: 8 word) < 2 ^ 4 \<and> (5 :: 8 word) \<noteq> 8) \<and>
      thresholds_above 4 (unat (5 :: 8 word)) = 1 \<and>
      mapSyndromeToBitPos11 5 = Inr (6, False)) \<and>
   ((5 :: nat) < 6 \<and> mapSyndromeToBitPos57 (2 ^ 5) = Inr (7, True)) \<and>
   (((4 :: 8 word) < 9 \<and> (9 :: 8 word) < 2 ^ 6 \<and> (9 :: 8 word) \<notin> {8, 16, 32}) \<and>
      thresholds_above 6 (unat (9 :: 8 word)) = 2 \<and>
      mapSyndromeToBitPos57 9 = Inr (11, False))"
proof -
  have a: "thresholds_above 3 (unat (5 :: 8 word)) = 0"
    and b: "thresholds_above 4 (unat (5 :: 8 word)) = 1"
    and c: "thresholds_above 6 (unat (9 :: 8 word)) = 2"
    by code_simp+
  note t = syndrome_map_table
  from a b c
    t [THEN conjunct2, THEN conjunct1, rule_format, of 2]
    t [THEN conjunct2, THEN conjunct2, THEN conjunct1, rule_format, of 5]
    t [THEN conjunct2, THEN conjunct2, THEN conjunct2, THEN conjunct2, THEN conjunct1,
      rule_format, of 3]
    t [THEN conjunct2, THEN conjunct2, THEN conjunct2, THEN conjunct2, THEN conjunct2,
      THEN conjunct1, rule_format, of 5]
    t [THEN conjunct2, THEN conjunct2, THEN conjunct2, THEN conjunct2, THEN conjunct2,
      THEN conjunct2, THEN conjunct2, THEN conjunct1, rule_format, of 5]
    t [THEN conjunct2, THEN conjunct2, THEN conjunct2, THEN conjunct2, THEN conjunct2,
      THEN conjunct2, THEN conjunct2, THEN conjunct2, rule_format, of 9]
  show ?thesis
    by simp
qed


section \<open>The encoder does not mask its input\<close>

lemma pack4_high_bits: "drop_bit 5 (PackWithCheckBits4 v t) = take_bit 59 v"
proof (rule bit_word_eqI)
  fix n
  assume "n < LENGTH(64)"
  define packed :: "64 word" where "packed = push_bit 5 v OR word_of_int (t AND 1)"
  define c where "c = computeHammingCheckBits4 packed"
  define v' where "v' = packed OR ucast c"
  define g :: "64 word" where "g = (if par v' then 2 else 0)"
  have pack: "PackWithCheckBits4 v t = v' OR g"
    by (simp add: PackWithCheckBits4_def Let_def packed_def c_def v'_def g_def
        computeParityInt64_par globalParityBitp_def)
  have g: "\<not> bit g (5 + n)"
    unfolding g_def by (simp only: bit_two split: if_split) simp
  have "bit v' (5 + n) \<longleftrightarrow> 5 + n < 64 \<and> bit v n"
    unfolding v'_def packed_def tag_bit c_def
    by (simp only: bit_or_iff bit_push_bit_iff bit_of_bool_iff bit_ucast_iff bit_chk4
        possible_bit_word) auto
  with g have "bit (PackWithCheckBits4 v t) (5 + n) \<longleftrightarrow> 5 + n < 64 \<and> bit v n"
    by (simp only: pack bit_or_iff) simp
  then show "bit (drop_bit 5 (PackWithCheckBits4 v t)) n = bit (take_bit 59 v) n"
    by (simp only: bit_drop_bit_eq bit_take_bit_iff comp_def) auto
qed

lemma pack11_high_bits: "drop_bit 6 (PackWithCheckBits11 v t) = take_bit 58 v"
proof (rule bit_word_eqI)
  fix n
  assume "n < LENGTH(64)"
  define packed :: "64 word" where "packed = push_bit 6 v OR word_of_int (t AND 1)"
  define c where "c = computeHammingCheckBits11 packed"
  define v' where "v' = packed OR ucast c"
  define g :: "64 word" where "g = (if par v' then 2 else 0)"
  have pack: "PackWithCheckBits11 v t = v' OR g"
    by (simp add: PackWithCheckBits11_def Let_def packed_def c_def v'_def g_def
        computeParityInt64_par globalParityBitp_def)
  have g: "\<not> bit g (6 + n)"
    unfolding g_def by (simp only: bit_two split: if_split) simp
  have "bit v' (6 + n) \<longleftrightarrow> 6 + n < 64 \<and> bit v n"
    unfolding v'_def packed_def tag_bit c_def
    by (simp only: bit_or_iff bit_push_bit_iff bit_of_bool_iff bit_ucast_iff bit_chk11
        possible_bit_word) auto
  with g have "bit (PackWithCheckBits11 v t) (6 + n) \<longleftrightarrow> 6 + n < 64 \<and> bit v n"
    by (simp only: pack bit_or_iff) simp
  then show "bit (drop_bit 6 (PackWithCheckBits11 v t)) n = bit (take_bit 58 v) n"
    by (simp only: bit_drop_bit_eq bit_take_bit_iff comp_def) auto
qed

lemma pack57_high_bits: "drop_bit 8 (PackWithCheckBits57 v t) = take_bit 56 v"
proof (rule bit_word_eqI)
  fix n
  assume "n < LENGTH(64)"
  define packed :: "64 word" where "packed = push_bit 8 v OR word_of_int (t AND 1)"
  define c where "c = computeHammingCheckBits57 packed"
  define v' where "v' = packed OR ucast c"
  define g :: "64 word" where "g = (if par v' then 2 else 0)"
  have pack: "PackWithCheckBits57 v t = v' OR g"
    by (simp add: PackWithCheckBits57_def Let_def packed_def c_def v'_def g_def
        computeParityInt64_par globalParityBitp_def)
  have g: "\<not> bit g (8 + n)"
    unfolding g_def by (simp only: bit_two split: if_split) simp
  have "bit v' (8 + n) \<longleftrightarrow> 8 + n < 64 \<and> bit v n"
    unfolding v'_def packed_def tag_bit c_def
    by (simp only: bit_or_iff bit_push_bit_iff bit_of_bool_iff bit_ucast_iff bit_chk57
        possible_bit_word) auto
  with g have "bit (PackWithCheckBits57 v t) (8 + n) \<longleftrightarrow> 8 + n < 64 \<and> bit v n"
    by (simp only: pack bit_or_iff) simp
  then show "bit (drop_bit 8 (PackWithCheckBits57 v t)) n = bit (take_bit 56 v) n"
    by (simp only: bit_drop_bit_eq bit_take_bit_iff comp_def) auto
qed

lemma push_bit_drops_high: "push_bit 8 (take_bit 56 v) = push_bit 8 v" for v :: "64 word"
  by (rule bit_word_eqI) (auto simp add: bit_push_bit_iff bit_take_bit_iff)

lemma pack57_low_bits_only: "PackWithCheckBits57 (take_bit 56 v) t = PackWithCheckBits57 v t"
  by (simp only: PackWithCheckBits57_def push_bit_drops_high)

text \<open>
  C8, as the specification states it, fails in package hamming57secded: the codeword is
  64 bits wide, the shift by 8 discards every bit of the input above the 56-bit Value
  field, and nothing is carried into the result. For the input value \<open>2 ^ 56\<close> the result
  is 0, the same as for its low 56 bits.
\<close>

theorem excess_bits_counterexample:
  "PackWithCheckBits57 (2 ^ 56) 0 = PackWithCheckBits57 (take_bit 56 (2 ^ 56)) 0 \<and>
   PackWithCheckBits57 (2 ^ 56) 0 = 0"
  by code_simp

text \<open>
  C8, amended. No package masks its input value: above the check bits the result holds
  the input value as shifted, so bits 5 to 63 (6 to 63, 8 to 63) of the result are the
  low 59 (58, 56) bits of the input. In packages hamming4secded and hamming11secded an
  input one bit wider than the Value field (\<open>2 ^ 3\<close>, \<open>2 ^ 10\<close>) therefore gives a result
  that differs from the one for its low 3 (10) bits and has a bit set above the 8-bit
  (16-bit) codeword. In package hamming57secded the codeword fills the 64-bit integer:
  the bits of the input above the 56-bit field are shifted out, and the result is the
  same as for the low 56 bits of the input.
\<close>

theorem encoder_does_not_mask:
  "drop_bit 5 (PackWithCheckBits4 v t) = take_bit 59 v \<and>
   PackWithCheckBits4 (2 ^ 3) 0 \<noteq> PackWithCheckBits4 (take_bit 3 (2 ^ 3)) 0 \<and>
   drop_bit 8 (PackWithCheckBits4 (2 ^ 3) 0) \<noteq> 0 \<and>
   drop_bit 6 (PackWithCheckBits11 v t) = take_bit 58 v \<and>
   PackWithCheckBits11 (2 ^ 10) 0 \<noteq> PackWithCheckBits11 (take_bit 10 (2 ^ 10)) 0 \<and>
   drop_bit 16 (PackWithCheckBits11 (2 ^ 10) 0) \<noteq> 0 \<and>
   drop_bit 8 (PackWithCheckBits57 v t) = take_bit 56 v \<and>
   PackWithCheckBits57 (take_bit 56 v) t = PackWithCheckBits57 v t"
proof -
  have "PackWithCheckBits4 (2 ^ 3) 0 \<noteq> PackWithCheckBits4 (take_bit 3 (2 ^ 3)) 0"
    and "drop_bit 8 (PackWithCheckBits4 (2 ^ 3) 0) \<noteq> 0"
    and "PackWithCheckBits11 (2 ^ 10) 0 \<noteq> PackWithCheckBits11 (take_bit 10 (2 ^ 10)) 0"
    and "drop_bit 16 (PackWithCheckBits11 (2 ^ 10) 0) \<noteq> 0"
    by code_simp+
  then show ?thesis
    by (simp only: pack4_high_bits pack11_high_bits pack57_high_bits pack57_low_bits_only
        simp_thms)
qed

end
